theory Spec2Isabelle
  imports Main
begin

section \<open>depends.py: a dependency graph of C/C++ files built from their include directives\<close>

text \<open>
  The development follows \<^verbatim>\<open>src/depends.py\<close>. Python's mutable globals (\<^verbatim>\<open>graph\<close>,
  \<^verbatim>\<open>depth\<close>, \<^verbatim>\<open>max_depth_reached\<close>) and what the program prints are the fields of one
  state record that every function takes and returns. The globals that are only read once
  scanning starts (\<^verbatim>\<open>verbose\<close>, \<^verbatim>\<open>inc_search_paths\<close>, \<^verbatim>\<open>SYS_INC_PATHS\<close>) and the file
  system are the fields of an environment record.

  What the model takes from outside the source file: the file system does not change
  during a run; \<^verbatim>\<open>os.path\<close> is \<^verbatim>\<open>posixpath\<close>; a dictionary is iterated in insertion order
  (Python 3.7 and later); a character is a code point below 256, so the text of a file has
  no code point above 255. The recursion limit of the interpreter is not modelled: a call
  chain is as deep as the recursion asks for.
\<close>

subsection \<open>Characters and strings of the Python library\<close>

definition DQ :: char where
  "DQ = CHR 0x22"

definition BSL :: char where
  "BSL = CHR 0x5C"

definition NL :: char where
  "NL = CHR 0x0A"

text \<open>\<^verbatim>\<open>str(n)\<close> for an integer: its decimal digits, with a minus sign below zero.\<close>

definition digit :: "nat \<Rightarrow> char" where
  "digit d = ''0123456789'' ! d"

function str_nat :: "nat \<Rightarrow> string" where
  "str_nat n = (if n < 10 then [digit n] else str_nat (n div 10) @ [digit (n mod 10)])"
  by pat_completeness auto
termination
  by (relation "measure (\<lambda>n. n)") auto

definition str :: "int \<Rightarrow> string" where
  "str i = (if i < 0 then CHR ''-'' # str_nat (nat (- i)) else str_nat (nat i))"

text \<open>
  \<^verbatim>\<open>s.strip()\<close> of a Python 3 string: the characters for which \<^verbatim>\<open>str.isspace\<close> holds are
  removed from both ends. Among the code points below 256 these are 0x09 to 0x0D (tab, line
  feed, vertical tab, form feed, carriage return), 0x1C to 0x1F (the separators), 0x20
  (space), 0x85 (next line) and 0xA0 (no-break space).
\<close>

definition whitespace :: "char list" where
  "whitespace = [CHR 0x09, CHR 0x0A, CHR 0x0B, CHR 0x0C, CHR 0x0D, CHR 0x1C, CHR 0x1D,
                 CHR 0x1E, CHR 0x1F, CHR '' '', CHR 0x85, CHR 0xA0]"

definition strip :: "string \<Rightarrow> string" where
  "strip s = rev (dropWhile (\<lambda>c. c \<in> set whitespace) (rev (dropWhile (\<lambda>c. c \<in> set whitespace) s)))"

text \<open>\<^verbatim>\<open>s.startswith(p)\<close>.\<close>

definition startswith :: "string \<Rightarrow> string \<Rightarrow> bool" where
  "startswith s p = (take (length p) s = p)"

text \<open>
  \<^verbatim>\<open>os.path.join(a, b)\<close> and \<^verbatim>\<open>os.path.split(p)\<close> of the standard library, in their POSIX
  version (\<^verbatim>\<open>posixpath\<close>): an absolute second component replaces the first; otherwise the
  two are joined by one slash unless the first is empty or ends with one. \<^verbatim>\<open>split\<close> cuts
  after the last slash and removes trailing slashes from the head unless the head consists
  of slashes only.
\<close>

definition join :: "string \<Rightarrow> string \<Rightarrow> string" where
  "join a b =
     (if startswith b ''/'' then b
      else if a = [] \<or> last a = CHR ''/'' then a @ b
      else a @ ''/'' @ b)"

definition rstrip_slash :: "string \<Rightarrow> string" where
  "rstrip_slash s = rev (dropWhile (\<lambda>c. c = CHR ''/'') (rev s))"

definition split :: "string \<Rightarrow> string \<times> string" where
  "split p =
     (let tail = rev (takeWhile (\<lambda>c. c \<noteq> CHR ''/'') (rev p));
          head = take (length p - length tail) p
      in (if head \<noteq> [] \<and> head \<noteq> replicate (length head) (CHR ''/'')
          then rstrip_slash head else head, tail))"

subsection \<open>The regular expression of include directives\<close>

text \<open>
  \<^verbatim>\<open>CPP_INC_PATTERN = re.compile('# *include *([<"])([^>"]*)([>"])')\<close> uses four kinds of
  items: a literal character, a greedy star over a character class, and a capturing group
  around one character of a class or around a greedy star over a class. \<^verbatim>\<open>pattern.match\<close>
  matches at the start of the string only and returns the captured groups, or \<^verbatim>\<open>None\<close>. A
  greedy star takes as many characters as it can and gives them back one at a time when
  the rest of the pattern fails.
\<close>

datatype cls = In "char list" | NotIn "char list"

fun cls_ok :: "cls \<Rightarrow> char \<Rightarrow> bool" where
  "cls_ok (In cs) c = (c \<in> set cs)"
| "cls_ok (NotIn cs) c = (c \<notin> set cs)"

datatype re_item = Chr char | Many cls | GOne cls | GMany cls

fun first_some :: "'a option list \<Rightarrow> 'a option" where
  "first_some [] = None"
| "first_some (None # xs) = first_some xs"
| "first_some (Some x # xs) = Some x"

fun re_match :: "re_item list \<Rightarrow> string \<Rightarrow> string list option" where
  "re_match [] s = Some []"
| "re_match (Chr c # r) s =
     (case s of [] \<Rightarrow> None | x # xs \<Rightarrow> if x = c then re_match r xs else None)"
| "re_match (GOne k # r) s =
     (case s of [] \<Rightarrow> None
      | x # xs \<Rightarrow> if cls_ok k x then map_option ((#) [x]) (re_match r xs) else None)"
| "re_match (Many k # r) s =
     first_some (map (\<lambda>n. re_match r (drop n s))
       (rev [0 ..< Suc (length (takeWhile (cls_ok k) s))]))"
| "re_match (GMany k # r) s =
     first_some (map (\<lambda>n. map_option ((#) (take n s)) (re_match r (drop n s)))
       (rev [0 ..< Suc (length (takeWhile (cls_ok k) s))]))"

definition CPP_INC_PATTERN :: "re_item list" where
  "CPP_INC_PATTERN =
     [Chr (CHR ''#''), Many (In '' ''),
      Chr (CHR ''i''), Chr (CHR ''n''), Chr (CHR ''c''), Chr (CHR ''l''), Chr (CHR ''u''),
      Chr (CHR ''d''), Chr (CHR ''e''), Many (In '' ''),
      GOne (In [CHR ''<'', DQ]), GMany (NotIn [CHR ''>'', DQ]), GOne (In [CHR ''>'', DQ])]"

subsection \<open>Constants and the environment\<close>

definition MAX_DEPTH :: int where
  "MAX_DEPTH = 1000"

definition INDENT :: int where
  "INDENT = 2"

text \<open>
  \<open>files\<close> is the file system as the program sees it: the regular files, each with its
  lines as \<^verbatim>\<open>for line in f\<close> yields them. \<^verbatim>\<open>os.path.isfile\<close> holds of the paths listed.
\<close>

record env =
  verbose :: bool
  inc_search_paths :: "string list"
  SYS_INC_PATHS :: "string list"
  files :: "(string \<times> string list) list"

definition isfile :: "env \<Rightarrow> string \<Rightarrow> bool" where
  "isfile e p = (map_of (files e) p \<noteq> None)"

subsection \<open>Nodes, the graph and the program state\<close>

text \<open>
  A \<^verbatim>\<open>Node\<close> object is created by \<^verbatim>\<open>Graph.get_node\<close> only and stored under its file name,
  so an object is identified by that name: a reference to a node (an element of a
  \<^verbatim>\<open>children\<close> list, \<^verbatim>\<open>this_node\<close>) is the name. The dictionary \<^verbatim>\<open>Graph.nodes\<close> is a list of
  pairs in insertion order, the order in which Python iterates over it.
\<close>

record node =
  file' :: string
  children :: "string list"
  has_parent :: bool
  visited :: bool
  missing :: bool

type_synonym graph = "(string \<times> node) list"

record state =
  graph :: graph
  depth :: int
  max_depth_reached :: int
  out :: "string list"
  lines_read :: nat

text \<open>\<^verbatim>\<open>Node.__init__\<close>.\<close>

definition Node :: "string \<Rightarrow> node" where
  "Node f = \<lparr>file' = f, children = [], has_parent = False, visited = False, missing = False\<rparr>"

text \<open>
  Reading object \<open>f\<close>. Every reference the program holds is a key of the dictionary; for
  any other name the model reads a fresh node.
\<close>

definition the_node :: "graph \<Rightarrow> string \<Rightarrow> node" where
  "the_node g f = (case map_of g f of Some n \<Rightarrow> n | None \<Rightarrow> Node f)"

text \<open>Assigning to fields of object \<open>f\<close>.\<close>

definition upd_node :: "graph \<Rightarrow> string \<Rightarrow> (node \<Rightarrow> node) \<Rightarrow> graph" where
  "upd_node g f F = map (\<lambda>(k, n). if k = f then (k, F n) else (k, n)) g"

text \<open>\<^verbatim>\<open>Graph.get_node\<close>: the dictionary after the call; the node returned is \<open>f\<close>.\<close>

definition get_node :: "graph \<Rightarrow> string \<Rightarrow> graph" where
  "get_node g f = (if map_of g f = None then g @ [(f, Node f)] else g)"

text \<open>\<^verbatim>\<open>print\<close>, \<^verbatim>\<open>log\<close> and \<^verbatim>\<open>error\<close>: a printed line is appended to \<open>out\<close>.\<close>

definition print :: "state \<Rightarrow> string \<Rightarrow> state" where
  "print st s = st\<lparr>out := out st @ [s]\<rparr>"

definition log :: "env \<Rightarrow> state \<Rightarrow> string \<Rightarrow> state" where
  "log e st s = (if verbose e then print st s else st)"

definition error :: "state \<Rightarrow> string \<Rightarrow> state" where
  "error st s = print st (''ERROR: '' @ s)"

subsection \<open>Methods of \<^verbatim>\<open>Node\<close>\<close>

text \<open>
  \<^verbatim>\<open>Node.add_child\<close>: \<open>add_child g self nd\<close> is the dictionary after \<^verbatim>\<open>self.add_child(nd)\<close>.
  The loop over \<^verbatim>\<open>self.children\<close> returns when it finds \<open>nd\<close>.
\<close>

definition add_child :: "graph \<Rightarrow> string \<Rightarrow> string \<Rightarrow> graph" where
  "add_child g self nd =
     (if nd \<in> set (children (the_node g self)) then g
      else upd_node (upd_node g self (\<lambda>n. n\<lparr>children := children n @ [nd]\<rparr>))
             nd (\<lambda>n. n\<lparr>has_parent := True\<rparr>))"

definition has_child :: "graph \<Rightarrow> string \<Rightarrow> string \<Rightarrow> bool" where
  "has_child g self nd = (nd \<in> set (children (the_node g self)))"

definition has_children :: "graph \<Rightarrow> string \<Rightarrow> bool" where
  "has_children g self = (length (children (the_node g self)) > 0)"

text \<open>\<^verbatim>\<open>Node.print_node\<close>: the line printed for a node, and the call.\<close>

definition strip_dot :: "string \<Rightarrow> string" where
  "strip_dot s = (if startswith s ''./'' \<or> startswith s [CHR ''.'', BSL] then drop 2 s else s)"

definition node_line :: "int \<Rightarrow> node \<Rightarrow> string" where
  "node_line d n =
     (let s = strip_dot (file' n);
          s = replicate (nat (d * INDENT)) (CHR '' '') @ s;
          s = (if visited n then s @ '' *'' else s);
          s = (if missing n then s @ '' ?'' else s)
      in s)"

definition print_node :: "state \<Rightarrow> string \<Rightarrow> state" where
  "print_node st self = print st (node_line (depth st) (the_node (graph st) self))"

subsection \<open>Resolving an include\<close>

text \<open>\<^verbatim>\<open>resolve_path\<close>; \<open>search\<close> is its loop over \<^verbatim>\<open>inc_search_paths\<close>.\<close>

fun search :: "env \<Rightarrow> string \<Rightarrow> string list \<Rightarrow> string" where
  "search e inc_path [] = inc_path"
| "search e inc_path (search_path # rest) =
     (let full_path = join search_path inc_path
      in if isfile e full_path then full_path else search e inc_path rest)"

definition resolve_path :: "env \<Rightarrow> string \<Rightarrow> string \<Rightarrow> bool \<Rightarrow> string" where
  "resolve_path e dir_path inc_path relative =
     (if relative \<and> isfile e (join dir_path inc_path) then join dir_path inc_path
      else search e inc_path (inc_search_paths e))"

fun is_sys_header_loop :: "string list \<Rightarrow> string \<Rightarrow> bool" where
  "is_sys_header_loop [] dir_path = False"
| "is_sys_header_loop (path # rest) dir_path =
     (if startswith dir_path path then True else is_sys_header_loop rest dir_path)"

definition is_sys_header_path :: "env \<Rightarrow> string \<Rightarrow> bool" where
  "is_sys_header_path e dir_path = is_sys_header_loop (SYS_INC_PATHS e) dir_path"

subsection \<open>Scanning a file\<close>

text \<open>
  The body of the loop over the lines of a file: \<open>includes\<close> and the state after the line
  numbered \<open>line_num\<close>. \<^verbatim>\<open>match.groups(1)\<close> is the tuple of the three groups.
\<close>

definition mismatched :: "string \<Rightarrow> string \<Rightarrow> bool" where
  "mismatched first last' = ((first = ''<'' \<and> last' = [DQ]) \<or> (first = [DQ] \<and> last' = ''>''))"

definition scan_line ::
  "env \<Rightarrow> string \<Rightarrow> string \<Rightarrow> int \<Rightarrow> string \<Rightarrow> string list \<times> state \<Rightarrow> string list \<times> state" where
  "scan_line e path dir_path line_num line acc =
     (case acc of (includes, st) \<Rightarrow>
       (case re_match CPP_INC_PATTERN line of
          None \<Rightarrow> (includes, st)
        | Some groups \<Rightarrow>
            (let first = groups ! 0; last' = groups ! 2
             in if mismatched first last'
                then (includes,
                      error st (path @ '': Invalid #include directive at line '' @ str line_num
                                @ '': '' @ strip line))
                else
                  (let isrelative = (first = [DQ]);
                       inc_path = groups ! 1;
                       inc_path = resolve_path e dir_path inc_path isrelative;
                       base_dir = fst (split inc_path)
                   in if is_sys_header_path e base_dir
                      then (includes, log e st (''Ignoring system header file: '' @ inc_path))
                      else (includes @ [inc_path],
                            log e st (''  '' @ path @ '' >> '' @ inc_path))))))"

text \<open>The loop \<^verbatim>\<open>for line in f\<close>; every line it reads is counted in \<open>lines_read\<close>.\<close>

fun scan_lines ::
  "env \<Rightarrow> string \<Rightarrow> string \<Rightarrow> string list \<Rightarrow> int \<Rightarrow> string list \<times> state \<Rightarrow> string list \<times> state" where
  "scan_lines e path dir_path [] line_num acc = acc"
| "scan_lines e path dir_path (line # rest) line_num acc =
     scan_lines e path dir_path rest (line_num + 1)
       (scan_line e path dir_path line_num line
         (fst acc, (snd acc)\<lparr>lines_read := lines_read (snd acc) + 1\<rparr>))"

text \<open>
  \<^verbatim>\<open>cpp_scan_file\<close>, with its last loop (\<^verbatim>\<open>for inc_path in includes\<close>) as \<open>scan_includes\<close>.
  \<^verbatim>\<open>os.path.isfile(path)\<close> and \<^verbatim>\<open>open(path)\<close> are one lookup in \<open>files\<close>.
\<close>

function cpp_scan_file :: "env \<Rightarrow> state \<Rightarrow> string \<Rightarrow> state"
  and scan_includes :: "env \<Rightarrow> string \<Rightarrow> state \<Rightarrow> string list \<Rightarrow> state" where
  "cpp_scan_file e st path =
     (let st1 = st\<lparr>graph := get_node (graph st) path\<rparr>
      in if visited (the_node (graph st1) path)
         then log e st1 (''Ignoring scanned file: '' @ path)
         else
           (let st2 = st1\<lparr>graph := upd_node (graph st1) path (\<lambda>n. n\<lparr>visited := True\<rparr>)\<rparr>
            in case map_of (files e) path of
                 None \<Rightarrow>
                   error (st2\<lparr>graph := upd_node (graph st2) path (\<lambda>n. n\<lparr>missing := True\<rparr>)\<rparr>)
                     (path @ '' is missing. Did you add include search paths?'')
               | Some lines \<Rightarrow>
                   (let dir_path = fst (split path);
                        st3 = log e st2 (''Scanning '' @ path);
                        r = scan_lines e path dir_path lines 1 ([], st3)
                    in scan_includes e path (snd r) (fst r))))"
| "scan_includes e path st [] = st"
| "scan_includes e path st (inc_path # rest) =
     scan_includes e path
       (cpp_scan_file e (st\<lparr>graph := add_child (get_node (graph st) inc_path) inc_path path\<rparr>)
          inc_path)
       rest"
  by pat_completeness auto

subsection \<open>Scanning terminates\<close>

text \<open>
  A call that reads a file marks a file of the file system that was not visited before, and
  no call resets a \<^verbatim>\<open>visited\<close> flag: the number of unvisited files decreases along the
  recursion.
\<close>

lemma map_of_upd_node:
  "map_of (upd_node g f F) k = (if k = f then map_option F (map_of g f) else map_of g k)"
  by (induction g) (auto simp: upd_node_def)

lemma keys_upd_node: "map fst (upd_node g f F) = map fst g"
  by (induction g) (auto simp: upd_node_def)

lemma map_of_get_node:
  "map_of (get_node g f) k =
     (if k = f \<and> map_of g f = None then Some (Node f) else map_of g k)"
  by (auto simp: get_node_def map_add_def split: option.splits)

lemma the_node_get_node: "the_node (get_node g f) k = the_node g k"
  by (simp add: the_node_def map_of_get_node)

lemma the_node_upd_node:
  "the_node (upd_node g f F) k =
     (if k = f \<and> map_of g f \<noteq> None then F (the_node g f) else the_node g k)"
  by (auto simp: the_node_def map_of_upd_node split: option.splits)

lemma visited_add_child: "visited (the_node (add_child g s nd) k) = visited (the_node g k)"
  by (simp add: add_child_def the_node_upd_node map_of_upd_node)

lemma graph_print: "graph (print st s) = graph st"
  by (simp add: print_def)

lemma graph_log: "graph (log e st s) = graph st"
  by (simp add: log_def graph_print)

lemma graph_error: "graph (error st s) = graph st"
  by (simp add: error_def graph_print)

lemma graph_scan_line: "graph (snd (scan_line e path d n line acc)) = graph (snd acc)"
  by (auto simp: scan_line_def Let_def graph_log graph_error split: prod.splits option.splits)

lemma graph_scan_lines: "graph (snd (scan_lines e path d ls n acc)) = graph (snd acc)"
  by (induction ls arbitrary: n acc) (simp_all add: graph_scan_line)

text \<open>
  \<open>vis_le g g'\<close>: every node that is visited in \<open>g\<close> is visited in \<open>g'\<close>. \<open>unvisited ks g\<close>:
  how many of the names \<open>ks\<close> have a node that is not visited in \<open>g\<close>.
\<close>

definition vis_le :: "graph \<Rightarrow> graph \<Rightarrow> bool" where
  "vis_le g g' = (\<forall>p. visited (the_node g p) \<longrightarrow> visited (the_node g' p))"

definition unvisited :: "string list \<Rightarrow> graph \<Rightarrow> nat" where
  "unvisited ks g = length (filter (\<lambda>p. \<not> visited (the_node g p)) ks)"

lemma filter_length_mono:
  "(\<And>x. x \<in> set xs \<Longrightarrow> P x \<Longrightarrow> Q x) \<Longrightarrow> length (filter P xs) \<le> length (filter Q xs)"
  by (induction xs) auto

lemma filter_length_less:
  "(\<And>x. x \<in> set xs \<Longrightarrow> P x \<Longrightarrow> Q x) \<Longrightarrow> a \<in> set xs \<Longrightarrow> Q a \<Longrightarrow> \<not> P a
   \<Longrightarrow> length (filter P xs) < length (filter Q xs)"
proof (induction xs)
  case Nil
  then show ?case by simp
next
  case (Cons x xs)
  have le: "length (filter P xs) \<le> length (filter Q xs)"
    using Cons.prems(1) by (intro filter_length_mono) auto
  show ?case
  proof (cases "a = x")
    case True
    then show ?thesis using Cons.prems le by simp
  next
    case False
    then have "length (filter P xs) < length (filter Q xs)"
      using Cons by auto
    then show ?thesis using Cons.prems(1)[of x] by auto
  qed
qed

lemma unvisited_mono: "vis_le g g' \<Longrightarrow> unvisited ks g' \<le> unvisited ks g"
  unfolding unvisited_def vis_le_def by (rule filter_length_mono) auto

lemma unvisited_less:
  "vis_le g g' \<Longrightarrow> p \<in> set ks \<Longrightarrow> \<not> visited (the_node g p)
   \<Longrightarrow> visited (the_node g' p) \<Longrightarrow> unvisited ks g' < unvisited ks g"
  unfolding unvisited_def vis_le_def
  by (rule filter_length_less [where a = p]) auto

lemma vis_le_refl: "vis_le g g"
  by (simp add: vis_le_def)

lemma vis_le_trans: "vis_le g g' \<Longrightarrow> vis_le g' g'' \<Longrightarrow> vis_le g g''"
  by (simp add: vis_le_def)

lemma vis_le_get_node: "vis_le g (get_node g f)"
  by (simp add: vis_le_def the_node_get_node)

lemma vis_le_add_child: "vis_le g (add_child g s nd)"
  by (simp add: vis_le_def visited_add_child)

lemma vis_le_mark: "vis_le g (upd_node g f (\<lambda>n. n\<lparr>visited := True\<rparr>))"
  by (simp add: vis_le_def the_node_upd_node)

lemma vis_le_missing: "vis_le g (upd_node g f (\<lambda>n. n\<lparr>missing := True\<rparr>))"
  by (simp add: vis_le_def the_node_upd_node)

lemma in_get_node: "map_of (get_node g f) f \<noteq> None"
  by (simp add: map_of_get_node)

lemma visited_mark_get:
  "visited (the_node (upd_node (get_node g f) f (\<lambda>n. n\<lparr>visited := True\<rparr>)) f)"
  using in_get_node [of g f] by (simp add: the_node_upd_node)

lemma scan_vis_le_dom:
  shows "cpp_scan_file_scan_includes_dom (Inl (e, st, path))
         \<Longrightarrow> vis_le (graph st) (graph (cpp_scan_file e st path))"
    and "cpp_scan_file_scan_includes_dom (Inr (e, path', st', incs))
         \<Longrightarrow> vis_le (graph st') (graph (scan_includes e path' st' incs))"
proof (induct rule: cpp_scan_file_scan_includes.pinduct)
  case (1 e st path)
  let ?g1 = "get_node (graph st) path"
  let ?g2 = "upd_node ?g1 path (\<lambda>n. n\<lparr>visited := True\<rparr>)"
  have g2: "vis_le (graph st) ?g2"
    using vis_le_trans [OF vis_le_get_node vis_le_mark] .
  show ?case
  proof (cases "visited (the_node ?g1 path)")
    case True
    then show ?thesis
      using 1(1) by (simp add: cpp_scan_file.psimps graph_log vis_le_get_node)
  next
    case nv: False
    show ?thesis
    proof (cases "map_of (files e) path")
      case None
      then show ?thesis
        using 1(1) nv vis_le_trans [OF g2 vis_le_missing]
        by (simp add: cpp_scan_file.psimps graph_error)
    next
      case (Some lines)
      let ?st3 = "log e (st\<lparr>graph := ?g2\<rparr>) (''Scanning '' @ path)"
      let ?r = "scan_lines e path (fst (split path)) lines 1 ([], ?st3)"
      have nv': "\<not> visited (the_node (graph (st\<lparr>graph := ?g1\<rparr>)) path)"
        using nv by simp
      have "vis_le (graph (snd ?r)) (graph (scan_includes e path (snd ?r) (fst ?r)))"
        using 1(2) [OF refl nv' refl Some refl refl refl] by simp
      moreover have "graph (snd ?r) = ?g2"
        by (simp add: graph_scan_lines graph_log)
      ultimately have "vis_le (graph st) (graph (scan_includes e path (snd ?r) (fst ?r)))"
        using vis_le_trans [OF g2] by simp
      then show ?thesis
        using 1(1) nv Some by (simp add: cpp_scan_file.psimps Let_def)
    qed
  qed
next
  case (2 e path st)
  then show ?case by (simp add: scan_includes.psimps vis_le_refl)
next
  case (3 e path st inc_path rest)
  let ?st1 = "st\<lparr>graph := add_child (get_node (graph st) inc_path) inc_path path\<rparr>"
  have "vis_le (graph st) (graph ?st1)"
    using vis_le_trans [OF vis_le_get_node vis_le_add_child] by simp
  then have "vis_le (graph st) (graph (scan_includes e path (cpp_scan_file e ?st1 inc_path) rest))"
    using 3(2,3) vis_le_trans by blast
  then show ?case using 3(1) by (simp add: scan_includes.psimps)
qed

lemma cpp_scan_file_total: "All cpp_scan_file_scan_includes_dom"
proof (rule "cpp_scan_file_scan_includes.termination"
         [of "inv_image (less_than <*lex*> less_than)
         (\<lambda>x. case x of
                 Inl (e, st, p) \<Rightarrow> (unvisited (map fst (files e)) (graph st), 0)
               | Inr (e, p, st, incs) \<Rightarrow> (unvisited (map fst (files e)) (graph st), Suc (length incs)))"],
       goal_cases)
  case 1
  show ?case by (intro wf_inv_image wf_lex_prod wf_less_than)
next
  case (2 e st path x xa x2 xb xc xd)
  have "graph (snd xd) = upd_node (get_node (graph st) path) path (\<lambda>n. n\<lparr>visited := True\<rparr>)"
    using 2 by (simp add: graph_scan_lines graph_log)
  moreover have "path \<in> set (map fst (files e))"
    using map_of_SomeD [OF 2(4)] by force
  then have "unvisited (map fst (files e))
               (upd_node (get_node (graph st) path) path (\<lambda>n. n\<lparr>visited := True\<rparr>))
             < unvisited (map fst (files e)) (graph st)"
    using 2(2) 2(1) vis_le_trans [OF vis_le_get_node vis_le_mark]
    by (intro unvisited_less [where p = path])
       (simp_all add: the_node_get_node visited_mark_get)
  ultimately show ?case by simp
next
  case (3 e path st inc_path rest)
  have "unvisited (map fst (files e)) (add_child (get_node (graph st) inc_path) inc_path path) = unvisited (map fst (files e)) (graph st)"
    by (simp add: unvisited_def visited_add_child the_node_get_node)
  then show ?case by simp
next
  case (4 e path st inc_path rest)
  let ?st1 = "st\<lparr>graph := add_child (get_node (graph st) inc_path) inc_path path\<rparr>"
  have a: "vis_le (graph st) (graph ?st1)"
    using vis_le_trans [OF vis_le_get_node vis_le_add_child] by simp
  have b: "vis_le (graph ?st1) (graph (cpp_scan_file e ?st1 inc_path))"
    by (rule scan_vis_le_dom(1) [OF 4])
  have "unvisited (map fst (files e)) (graph (cpp_scan_file e ?st1 inc_path)) \<le> unvisited (map fst (files e)) (graph st)"
    by (rule unvisited_mono [OF vis_le_trans [OF a b]])
  then have "unvisited (map fst (files e)) (graph (cpp_scan_file e ?st1 inc_path)) < unvisited (map fst (files e)) (graph st)
      \<or> unvisited (map fst (files e)) (graph (cpp_scan_file e ?st1 inc_path)) = unvisited (map fst (files e)) (graph st)"
    by arith
  then show ?case by (simp add: in_lex_prod)
qed


termination cpp_scan_file
  by (rule cpp_scan_file_total)

declare cpp_scan_file.simps [simp del]

subsection \<open>Rendering\<close>

text \<open>
  \<^verbatim>\<open>Node.print_tree\<close>, with its loop over \<^verbatim>\<open>self.children\<close> as \<open>print_children\<close>. The call
  returns \<^verbatim>\<open>False\<close>, \<^verbatim>\<open>True\<close> or, by the bare \<^verbatim>\<open>return\<close> for a node already visited,
  \<^verbatim>\<open>None\<close>; \<^verbatim>\<open>not child.print_tree()\<close> holds of \<^verbatim>\<open>False\<close> and of \<^verbatim>\<open>None\<close>. The loop
  yields \<open>False\<close> when it left the function by \<^verbatim>\<open>return False\<close> and \<open>True\<close> when it ran to
  its end.
\<close>

function print_tree :: "state \<Rightarrow> string \<Rightarrow> state \<times> bool option"
  and print_children :: "state \<Rightarrow> string list \<Rightarrow> state \<times> bool" where
  "print_tree st self =
     (if depth st > MAX_DEPTH
      then (print st (''MAX depth reached '' @ str (depth st)), Some False)
      else
        (let st1 = print_node st self
         in if visited (the_node (graph st1) self) then (st1, None)
            else
              (let st2 = st1\<lparr>graph := upd_node (graph st1) self (\<lambda>n. n\<lparr>visited := True\<rparr>)\<rparr>;
                   st3 = st2\<lparr>depth := depth st2 + 1\<rparr>;
                   st4 = st3\<lparr>max_depth_reached := depth st3\<rparr>;
                   r = print_children st4 (children (the_node (graph st4) self))
               in if snd r then ((fst r)\<lparr>depth := depth (fst r) - 1\<rparr>, Some True)
                  else (fst r, Some False))))"
| "print_children st [] = (st, True)"
| "print_children st (child # rest) =
     (let r = print_tree st child
      in if snd r \<noteq> Some True then (fst r, False) else print_children (fst r) rest)"
  by pat_completeness auto

text \<open>
  Rendering terminates: a call that descends marks a node of the dictionary that was not
  visited before.
\<close>

lemma graph_of_print_node: "graph (print_node st self) = graph st"
  by (simp add: print_node_def graph_print)

text \<open>
  \<open>render_le g g'\<close>: no \<^verbatim>\<open>visited\<close> flag is reset from \<open>g\<close> to \<open>g'\<close>, and the dictionary has the
  same keys.
\<close>

definition render_le :: "graph \<Rightarrow> graph \<Rightarrow> bool" where
  "render_le g g' = (vis_le g g' \<and> map fst g' = map fst g)"

lemma render_le_refl: "render_le g g"
  by (simp add: render_le_def vis_le_refl)

lemma render_le_trans: "render_le g g' \<Longrightarrow> render_le g' g'' \<Longrightarrow> render_le g g''"
  using vis_le_trans by (auto simp: render_le_def)

lemma render_le_mark: "render_le g (upd_node g f (\<lambda>n. n\<lparr>visited := True\<rparr>))"
  by (simp add: render_le_def vis_le_mark keys_upd_node)

lemma print_render_le_dom:
  shows "print_tree_print_children_dom (Inl (st, self))
         \<Longrightarrow> render_le (graph st) (graph (fst (print_tree st self)))"
    and "print_tree_print_children_dom (Inr (st', cs))
         \<Longrightarrow> render_le (graph st') (graph (fst (print_children st' cs)))"
proof (induct rule: print_tree_print_children.pinduct)
  case (1 st self)
  let ?st1 = "print_node st self"
  let ?st2 = "?st1\<lparr>graph := upd_node (graph ?st1) self (\<lambda>n. n\<lparr>visited := True\<rparr>)\<rparr>"
  let ?st3 = "?st2\<lparr>depth := depth ?st2 + 1\<rparr>"
  let ?st4 = "?st3\<lparr>max_depth_reached := depth ?st3\<rparr>"
  let ?r = "print_children ?st4 (children (the_node (graph ?st4) self))"
  show ?case
  proof (cases "MAX_DEPTH < depth st")
    case True
    then show ?thesis
      using 1(1) by (simp add: print_tree.psimps graph_print render_le_refl)
  next
    case d: False
    show ?thesis
    proof (cases "visited (the_node (graph ?st1) self)")
      case True
      then show ?thesis
        using 1(1) d by (simp add: print_tree.psimps graph_of_print_node render_le_refl)
    next
      case nv: False
      have "render_le (graph ?st4) (graph (fst ?r))"
        by (rule 1(2) [OF d refl nv refl refl refl])
      moreover have "render_le (graph st) (graph ?st4)"
        using render_le_mark [of "graph st" self] by (simp add: graph_of_print_node)
      ultimately have "render_le (graph st) (graph (fst ?r))"
        by (rule render_le_trans [rotated])
      then show ?thesis
        using 1(1) d nv by (simp add: print_tree.psimps Let_def)
    qed
  qed
next
  case (2 st)
  then show ?case by (simp add: print_children.psimps render_le_refl)
next
  case (3 st child rest)
  let ?x = "print_tree st child"
  show ?case
  proof (cases "snd ?x \<noteq> Some True")
    case True
    then show ?thesis
      using 3(1,2) by (simp add: print_children.psimps Let_def)
  next
    case False
    have "render_le (graph (fst ?x)) (graph (fst (print_children (fst ?x) rest)))"
      by (rule 3(3) [OF refl False])
    then have "render_le (graph st) (graph (fst (print_children (fst ?x) rest)))"
      using 3(2) render_le_trans by blast
    then show ?thesis
      using 3(1) False by (simp add: print_children.psimps Let_def)
  qed
qed

text \<open>
  The measure of the recursion: the number of unvisited nodes of the dictionary, then the
  kind of call (the loop at its end, a call of \<^verbatim>\<open>print_tree\<close>, the loop with children left).
\<close>

definition render_measure :: "(state \<times> string) + (state \<times> string list) \<Rightarrow> nat \<times> nat" where
  "render_measure x =
     (case x of
        Inl (st, self) \<Rightarrow> (unvisited (map fst (graph st)) (graph st), 1)
      | Inr (st, cs) \<Rightarrow>
          (unvisited (map fst (graph st)) (graph st), if cs = [] then 0 else 2 + length cs))"

lemma unvisited_render_le:
  "render_le g g' \<Longrightarrow> unvisited (map fst g') g' \<le> unvisited (map fst g) g"
  by (simp add: render_le_def unvisited_mono)

lemma print_tree_total: "All print_tree_print_children_dom"
proof (rule "print_tree_print_children.termination"
         [of "inv_image (less_than <*lex*> less_than) render_measure"], goal_cases)
  case 1
  show ?case by (intro wf_inv_image wf_lex_prod wf_less_than)
next
  case (2 st self x xa xb xc)
  let ?g = "graph st"
  let ?g' = "upd_node ?g self (\<lambda>n. n\<lparr>visited := True\<rparr>)"
  have g: "graph xc = ?g'"
    using 2 by (simp add: graph_of_print_node)
  have nv: "\<not> visited (the_node ?g self)"
    using 2 by (simp add: graph_of_print_node)
  show ?case
  proof (cases "map_of ?g self")
    case None
    then have "children (the_node ?g' self) = []"
      by (simp add: the_node_upd_node) (simp add: the_node_def Node_def)
    moreover have "unvisited (map fst ?g') ?g' \<le> unvisited (map fst ?g) ?g"
      by (rule unvisited_render_le [OF render_le_mark])
    then have "unvisited (map fst ?g') ?g' < unvisited (map fst ?g) ?g
               \<or> unvisited (map fst ?g') ?g' = unvisited (map fst ?g) ?g"
      by arith
    ultimately show ?thesis
      using g by (auto simp: render_measure_def)
  next
    case (Some n)
    then have "self \<in> set (map fst ?g)"
      using map_of_SomeD by force
    then have "unvisited (map fst ?g) ?g' < unvisited (map fst ?g) ?g"
      using nv Some
      by (intro unvisited_less [where p = self]) (simp_all add: vis_le_mark the_node_upd_node)
    then show ?thesis
      using g by (simp add: render_measure_def keys_upd_node)
  qed
next
  case (3 st child rest)
  show ?case by (simp add: render_measure_def)
next
  case (4 st child rest x)
  have "render_le (graph st) (graph (fst x))"
    using 4(1) print_render_le_dom(1) [OF 4(3)] by simp
  then have "unvisited (map fst (graph (fst x))) (graph (fst x))
             \<le> unvisited (map fst (graph st)) (graph st)"
    by (rule unvisited_render_le)
  then have "unvisited (map fst (graph (fst x))) (graph (fst x))
               < unvisited (map fst (graph st)) (graph st)
             \<or> unvisited (map fst (graph (fst x))) (graph (fst x))
               = unvisited (map fst (graph st)) (graph st)"
    by arith
  then show ?case by (auto simp: render_measure_def)
qed

termination print_tree
  by (rule print_tree_total)

declare print_tree.simps [simp del]

text \<open>\<^verbatim>\<open>Graph.clear_visisted\<close>.\<close>

definition clear_visisted :: "state \<Rightarrow> state" where
  "clear_visisted st =
     st\<lparr>depth := 0, max_depth_reached := 0,
        graph := map (\<lambda>(f, n). (f, n\<lparr>visited := False\<rparr>)) (graph st)\<rparr>"

text \<open>
  \<^verbatim>\<open>Graph.print_graph\<close>, \<^verbatim>\<open>Graph.print_leaf_nodes\<close>, \<^verbatim>\<open>Graph.print_top_level_nodes\<close> and
  \<^verbatim>\<open>Graph.print_node\<close>, each with its loop over the keys of the dictionary. The value that
  \<^verbatim>\<open>print_tree\<close> returns is dropped by \<^verbatim>\<open>print_graph\<close> and \<^verbatim>\<open>Graph.print_node\<close>.
\<close>

fun print_graph_loop :: "state \<Rightarrow> string list \<Rightarrow> state" where
  "print_graph_loop st [] = st"
| "print_graph_loop st (f # rest) =
     print_graph_loop
       (if \<not> has_parent (the_node (graph st) f) then fst (print_tree st f) else st) rest"

definition print_graph :: "state \<Rightarrow> state" where
  "print_graph st = (let st1 = clear_visisted st in print_graph_loop st1 (map fst (graph st1)))"

fun print_leaf_loop :: "state \<Rightarrow> string list \<Rightarrow> state" where
  "print_leaf_loop st [] = st"
| "print_leaf_loop st (f # rest) =
     print_leaf_loop (if has_children (graph st) f = False then print_node st f else st) rest"

definition print_leaf_nodes :: "state \<Rightarrow> state" where
  "print_leaf_nodes st =
     (let st1 = clear_visisted st in print_leaf_loop st1 (map fst (graph st1)))"

fun print_top_level_loop :: "state \<Rightarrow> string list \<Rightarrow> state" where
  "print_top_level_loop st [] = st"
| "print_top_level_loop st (f # rest) =
     print_top_level_loop
       (if \<not> has_parent (the_node (graph st) f) then print_node st f else st) rest"

definition print_top_level_nodes :: "state \<Rightarrow> state" where
  "print_top_level_nodes st =
     (let st1 = clear_visisted st in print_top_level_loop st1 (map fst (graph st1)))"

definition graph_print_node :: "state \<Rightarrow> string \<Rightarrow> state" where
  "graph_print_node st name =
     (let st1 = clear_visisted st
      in if map_of (graph st1) name \<noteq> None then fst (print_tree st1 name) else st1)"

text \<open>The state in which \<^verbatim>\<open>main\<close> starts scanning: \<^verbatim>\<open>graph = Graph()\<close>, nothing printed.\<close>

definition init :: state where
  "init = \<lparr>graph = [], depth = 0, max_depth_reached = 0, out = [], lines_read = 0\<rparr>"

section \<open>Properties\<close>

subsection \<open>Resolving an include\<close>

lemma search_first:
  "i < length sps \<Longrightarrow> isfile e (join (sps ! i) inc_path)
   \<Longrightarrow> (\<And>j. j < i \<Longrightarrow> \<not> isfile e (join (sps ! j) inc_path))
   \<Longrightarrow> search e inc_path sps = join (sps ! i) inc_path"
proof (induction sps arbitrary: i)
  case Nil
  then show ?case by simp
next
  case (Cons sp sps)
  show ?case
  proof (cases i)
    case 0
    then show ?thesis using Cons.prems by simp
  next
    case (Suc k)
    have "\<not> isfile e (join sp inc_path)"
      using Cons.prems(3) [of 0] Suc by simp
    moreover have "search e inc_path sps = join (sps ! k) inc_path"
    proof (rule Cons.IH)
      show "k < length sps" using Cons.prems(1) Suc by simp
      show "isfile e (join (sps ! k) inc_path)" using Cons.prems(2) Suc by simp
      show "\<not> isfile e (join (sps ! j) inc_path)" if "j < k" for j
        using Cons.prems(3) [of "Suc j"] that Suc by simp
    qed
    ultimately show ?thesis using Suc by simp
  qed
qed

lemma search_none:
  "(\<And>sp. sp \<in> set sps \<Longrightarrow> \<not> isfile e (join sp inc_path)) \<Longrightarrow> search e inc_path sps = inc_path"
  by (induction sps) simp_all

text \<open>
  Claim C3. \<^verbatim>\<open>resolve_path\<close> returns the including directory joined with the spelling when
  the include is quoted and that path is an existing file; otherwise the first entry of
  \<^verbatim>\<open>inc_search_paths\<close>, in registration order, whose join with the spelling is an existing
  file, joined with the spelling; and the spelling itself when no candidate exists.
\<close>

theorem resolve_path_order:
  "(relative \<and> isfile e (join dir_path inc_path)
      \<longrightarrow> resolve_path e dir_path inc_path relative = join dir_path inc_path)
   \<and> (\<not> (relative \<and> isfile e (join dir_path inc_path))
      \<longrightarrow> (\<forall>i < length (inc_search_paths e).
             isfile e (join (inc_search_paths e ! i) inc_path)
             \<and> (\<forall>j < i. \<not> isfile e (join (inc_search_paths e ! j) inc_path))
             \<longrightarrow> resolve_path e dir_path inc_path relative
                  = join (inc_search_paths e ! i) inc_path)
        \<and> ((\<forall>sp \<in> set (inc_search_paths e). \<not> isfile e (join sp inc_path))
             \<longrightarrow> resolve_path e dir_path inc_path relative = inc_path))"
  by (auto simp: resolve_path_def search_first search_none)

text \<open>
  A file system with a header beside the including file and one found on the second and
  the third search path.
\<close>

definition fs3 :: env where
  "fs3 = \<lparr>verbose = False, inc_search_paths = [''inc'', ''lib'', ''/usr/include''],
          SYS_INC_PATHS = [''/usr/include''],
          files = [(''src/local.h'', []), (''lib/util.h'', []), (''/usr/include/util.h'', [])]\<rparr>"

lemma fs3_files:
  "isfile fs3 p = (p = ''src/local.h'' \<or> p = ''lib/util.h'' \<or> p = ''/usr/include/util.h'')"
  by (auto simp: isfile_def fs3_def)

theorem resolve_path_order_witness:
  "resolve_path fs3 ''src'' ''local.h'' True = ''src/local.h''
   \<and> resolve_path fs3 ''src'' ''util.h'' True = ''lib/util.h''
   \<and> resolve_path fs3 ''src'' ''local.h'' False = ''local.h''"
proof -
  have a: "resolve_path fs3 ''src'' ''local.h'' True = join ''src'' ''local.h''"
    using resolve_path_order [of True fs3 "''src''" "''local.h''"]
    by (simp add: fs3_files join_def startswith_def)
  have "resolve_path fs3 ''src'' ''util.h'' True = join (inc_search_paths fs3 ! 1) ''util.h''"
    using resolve_path_order [of True fs3 "''src''" "''util.h''"]
    by (simp add: fs3_files join_def startswith_def fs3_def[THEN arg_cong, of inc_search_paths] less_Suc_eq)
  then have b: "resolve_path fs3 ''src'' ''util.h'' True = ''lib/util.h''"
    by (simp add: fs3_def join_def startswith_def)
  have c: "resolve_path fs3 ''src'' ''local.h'' False = ''local.h''"
    using resolve_path_order [of False fs3 "''src''" "''local.h''"]
    by (simp add: fs3_files join_def startswith_def fs3_def[THEN arg_cong, of inc_search_paths])
  show ?thesis using a b c by (simp add: join_def startswith_def)
qed

subsection \<open>Matching an include directive\<close>

lemma first_some_all_None: "(\<And>x. x \<in> set xs \<Longrightarrow> x = None) \<Longrightarrow> first_some xs = None"
  by (induction xs rule: first_some.induct) auto

lemma first_some_append_None:
  "(\<And>x. x \<in> set xs \<Longrightarrow> x = None) \<Longrightarrow> first_some (xs @ ys) = first_some ys"
  by (induction xs rule: first_some.induct) auto

lemma first_some_downto:
  assumes "\<And>j. j < n \<Longrightarrow> f j = None"
  shows "first_some (map f (rev [0 ..< Suc n])) = f n"
proof -
  have "map f (rev [0 ..< Suc n]) = [f n] @ map f (rev [0 ..< n])"
    by simp
  moreover have "first_some (map f (rev [0 ..< n])) = None"
    using assms by (intro first_some_all_None) auto
  ultimately show ?thesis
    by (cases "f n") simp_all
qed

lemma takeWhile_block:
  "(\<And>x. x \<in> set xs \<Longrightarrow> P x) \<Longrightarrow> (s = [] \<or> \<not> P (hd s)) \<Longrightarrow> takeWhile P (xs @ s) = xs"
  by (induction xs) (auto simp: takeWhile_eq_Nil_iff)

lemma drop_in_block:
  "j < length xs \<Longrightarrow> \<exists>x t. x \<in> set xs \<and> drop j (xs @ s) = x # t"
  by (metis Cons_nth_drop_Suc drop_append length_append nth_mem trans_less_add1 append_Cons
      diff_is_0_eq' drop0 less_imp_le_nat)


lemma re_match_Many:
  assumes "\<And>x. x \<in> set xs \<Longrightarrow> cls_ok k x" and "s = [] \<or> \<not> cls_ok k (hd s)"
    and "\<And>x t. x \<in> set xs \<Longrightarrow> re_match r (x # t) = None"
  shows "re_match (Many k # r) (xs @ s) = re_match r s"
proof -
  have len: "length (takeWhile (cls_ok k) (xs @ s)) = length xs"
    using takeWhile_block [of xs "cls_ok k" s] assms(1,2) by simp
  have "re_match r (drop j (xs @ s)) = None" if "j < length xs" for j
    using drop_in_block [OF that, of s] assms(3) by auto
  then have "first_some (map (\<lambda>n. re_match r (drop n (xs @ s))) (rev [0 ..< Suc (length xs)]))
             = re_match r (drop (length xs) (xs @ s))"
    by (rule first_some_downto)
  then show ?thesis using len by (simp add: re_match.simps)
qed

lemma re_match_GMany:
  assumes "\<And>x. x \<in> set xs \<Longrightarrow> cls_ok k x" and "s = [] \<or> \<not> cls_ok k (hd s)"
    and "\<And>x t. x \<in> set xs \<Longrightarrow> re_match r (x # t) = None"
  shows "re_match (GMany k # r) (xs @ s) = map_option ((#) xs) (re_match r s)"
proof -
  have len: "length (takeWhile (cls_ok k) (xs @ s)) = length xs"
    using takeWhile_block [of xs "cls_ok k" s] assms(1,2) by simp
  have "map_option ((#) (take j (xs @ s))) (re_match r (drop j (xs @ s))) = None"
    if "j < length xs" for j
    using drop_in_block [OF that, of s] assms(3) by auto
  then have "first_some (map (\<lambda>n. map_option ((#) (take n (xs @ s))) (re_match r (drop n (xs @ s))))
               (rev [0 ..< Suc (length xs)]))
             = map_option ((#) (take (length xs) (xs @ s))) (re_match r (drop (length xs) (xs @ s)))"
    by (rule first_some_downto)
  then show ?thesis using len by (simp add: re_match.simps)
qed

declare re_match.simps(4,5) [simp del]

lemma match_directive:
  assumes o: "a = CHR ''<'' \<or> a = DQ" and c: "c = CHR ''>'' \<or> c = DQ"
    and sp: "CHR ''>'' \<notin> set sp" "DQ \<notin> set sp"
  shows "re_match CPP_INC_PATTERN
           (CHR ''#'' # replicate n (CHR '' '') @ ''include'' @ replicate m (CHR '' '')
              @ a # sp @ c # rest)
         = Some [[a], sp, [c]]"
proof -
  let ?tail = "[GOne (In [CHR ''<'', DQ]), GMany (NotIn [CHR ''>'', DQ]), GOne (In [CHR ''>'', DQ])]"
  have a_ns: "a \<noteq> CHR '' ''"
    using o by (auto simp: DQ_def)
  have t3: "re_match [GOne (In [CHR ''>'', DQ])] (c # rest) = Some [[c]]"
    using c by auto
  have "re_match [GMany (NotIn [CHR ''>'', DQ]), GOne (In [CHR ''>'', DQ])] (sp @ c # rest)
        = map_option ((#) sp) (re_match [GOne (In [CHR ''>'', DQ])] (c # rest))"
  proof (rule re_match_GMany)
    show "cls_ok (NotIn [CHR ''>'', DQ]) x" if "x \<in> set sp" for x
      using that sp by auto
    show "c # rest = [] \<or> \<not> cls_ok (NotIn [CHR ''>'', DQ]) (hd (c # rest))"
      using c by auto
    show "re_match [GOne (In [CHR ''>'', DQ])] (x # t) = None" if "x \<in> set sp" for x t
      using that sp by auto
  qed
  then have t2: "re_match [GMany (NotIn [CHR ''>'', DQ]), GOne (In [CHR ''>'', DQ])]
                   (sp @ c # rest) = Some [sp, [c]]"
    using t3 by simp
  have t1: "re_match ?tail (a # sp @ c # rest) = Some [[a], sp, [c]]"
    using o t2 by auto
  have "re_match (Many (In '' '') # ?tail) (replicate m (CHR '' '') @ a # sp @ c # rest)
        = re_match ?tail (a # sp @ c # rest)"
  proof (rule re_match_Many)
    show "cls_ok (In '' '') x" if "x \<in> set (replicate m (CHR '' ''))" for x
      using that by auto
    show "a # sp @ c # rest = [] \<or> \<not> cls_ok (In '' '') (hd (a # sp @ c # rest))"
      using a_ns by simp
    show "re_match ?tail (x # t) = None" if "x \<in> set (replicate m (CHR '' ''))" for x t
      using that by (auto simp: DQ_def)
  qed
  then have m2: "re_match (Many (In '' '') # ?tail)
                   (replicate m (CHR '' '') @ a # sp @ c # rest) = Some [[a], sp, [c]]"
    using t1 by simp
  let ?mid = "[Chr (CHR ''i''), Chr (CHR ''n''), Chr (CHR ''c''), Chr (CHR ''l''), Chr (CHR ''u''),
      Chr (CHR ''d''), Chr (CHR ''e''), Many (In '' '')] @ ?tail"
  have m1: "re_match ?mid (''include'' @ replicate m (CHR '' '') @ a # sp @ c # rest)
            = Some [[a], sp, [c]]"
    using m2 by simp
  have "re_match (Many (In '' '') # ?mid)
          (replicate n (CHR '' '') @ ''include'' @ replicate m (CHR '' '') @ a # sp @ c # rest)
        = re_match ?mid (''include'' @ replicate m (CHR '' '') @ a # sp @ c # rest)"
    by (rule re_match_Many) auto
  then show ?thesis
    using m1 by (simp add: CPP_INC_PATTERN_def)
qed

lemma no_match_before_hash: "w \<noteq> CHR ''#'' \<Longrightarrow> re_match CPP_INC_PATTERN (w # s) = None"
  by (simp add: CPP_INC_PATTERN_def)


text \<open>
  Claim C4, as amended. A line that begins with \<^verbatim>\<open>#\<close>, any number of spaces, \<^verbatim>\<open>include\<close>, any
  number of spaces, an opening \<^verbatim>\<open><\<close> or double quote, a spelling without \<^verbatim>\<open>>\<close> and double
  quote, and a closing \<^verbatim>\<open>>\<close> or double quote is matched, and the groups are the two
  delimiters and the spelling. With whitespace before the \<^verbatim>\<open>#\<close> the line is not matched:
  \<^verbatim>\<open>pattern.match\<close> matches at the start of the line only.
\<close>

theorem include_directive_at_line_start:
  assumes "a = CHR ''<'' \<or> a = DQ" and "c = CHR ''>'' \<or> c = DQ"
    and "CHR ''>'' \<notin> set sp" and "DQ \<notin> set sp" and "set ws \<subseteq> set whitespace"
  shows "re_match CPP_INC_PATTERN
           (ws @ CHR ''#'' # replicate n (CHR '' '') @ ''include'' @ replicate m (CHR '' '')
              @ a # sp @ c # rest)
         = (if ws = [] then Some [[a], sp, [c]] else None)"
proof (cases ws)
  case Nil
  then show ?thesis using match_directive [OF assms(1-4)] by simp
next
  case (Cons w ws')
  then have "w \<noteq> CHR ''#''"
    using assms(5) by (auto simp: whitespace_def)
  then show ?thesis using Cons by (simp add: no_match_before_hash)
qed

theorem include_directive_at_line_start_witness:
  "re_match CPP_INC_PATTERN (''#include '' @ [DQ] @ ''foo.h'' @ [DQ] @ [NL])
     = Some [[DQ], ''foo.h'', [DQ]]
   \<and> re_match CPP_INC_PATTERN (''#  include<sys/x.h>'') = Some [''<'', ''sys/x.h'', ''>'']
   \<and> re_match CPP_INC_PATTERN ([CHR 0x09] @ ''#include <x.h>'') = None"
proof -
  have a: "re_match CPP_INC_PATTERN (''#include '' @ [DQ] @ ''foo.h'' @ [DQ] @ [NL])
           = Some [[DQ], ''foo.h'', [DQ]]"
    using include_directive_at_line_start
      [where a = DQ and c = DQ and sp = "''foo.h''" and ws = "[]" and n = 0 and m = 1
         and rest = "[NL]"]
    by (simp add: DQ_def)
  have b: "re_match CPP_INC_PATTERN (''#  include<sys/x.h>'') = Some [''<'', ''sys/x.h'', ''>'']"
    using include_directive_at_line_start
      [where a = "CHR ''<''" and c = "CHR ''>''" and sp = "''sys/x.h''" and ws = "[]"
         and n = 2 and m = 0 and rest = "[]"]
    by (simp add: DQ_def numeral_2_eq_2)
  have c: "re_match CPP_INC_PATTERN ([CHR 0x09] @ ''#include <x.h>'') = None"
    using include_directive_at_line_start
      [where a = "CHR ''<''" and c = "CHR ''>''" and sp = "''x.h''" and ws = "[CHR 0x09]"
         and n = 0 and m = 1 and rest = "[]"]
    by (simp add: DQ_def whitespace_def)
  show ?thesis using a b c by simp
qed

text \<open>
  The line of the claim, two spaces before \<^verbatim>\<open>#include "foo.h"\<close>, is not matched, and the
  loop body leaves \<open>includes\<close> and the state as they are.
\<close>

theorem indented_include_not_matched:
  "re_match CPP_INC_PATTERN (''  #include '' @ [DQ] @ ''foo.h'' @ [DQ]) = None
   \<and> (\<forall>e path d n acc.
        scan_line e path d n (''  #include '' @ [DQ] @ ''foo.h'' @ [DQ]) acc = acc)"
  by (simp add: scan_line_def no_match_before_hash split: prod.splits)

subsection \<open>The loop over the lines of a file\<close>







subsection \<open>The listings\<close>

lemma map_of_clear:
  "map_of (map (\<lambda>(f, n). (f, n\<lparr>visited := False\<rparr>)) g) k
   = map_option (\<lambda>n. n\<lparr>visited := False\<rparr>) (map_of g k)"
  by (induction g) auto

lemma the_node_clear:
  "the_node (graph (clear_visisted st)) f = (the_node (graph st) f)\<lparr>visited := False\<rparr>"
  by (simp add: clear_visisted_def the_node_def map_of_clear Node_def split: option.splits)

lemma keys_clear: "map fst (graph (clear_visisted st)) = map fst (graph st)"
  by (simp add: clear_visisted_def case_prod_unfold comp_def)

lemma depth_clear: "depth (clear_visisted st) = 0"
  by (simp add: clear_visisted_def)

lemma out_clear: "out (clear_visisted st) = out st"
  by (simp add: clear_visisted_def)

lemma has_children_clear: "has_children (graph (clear_visisted st)) f = has_children (graph st) f"
  by (simp add: has_children_def the_node_clear)

text \<open>
  The line that \<^verbatim>\<open>Node.print_node\<close> prints at depth 0 for a node whose \<^verbatim>\<open>visited\<close> flag is
  clear.
\<close>

definition listing_line :: "node \<Rightarrow> string" where
  "listing_line n = strip_dot (file' n) @ (if missing n then '' ?'' else [])"

lemma node_line_cleared: "node_line 0 (n\<lparr>visited := False\<rparr>) = listing_line n"
  by (simp add: node_line_def listing_line_def Let_def)

lemma print_top_level_loop_eq:
  "print_top_level_loop st ks
   = st\<lparr>out := out st @ map (\<lambda>f. node_line (depth st) (the_node (graph st) f))
                          (filter (\<lambda>f. \<not> has_parent (the_node (graph st) f)) ks)\<rparr>"
  by (induction ks arbitrary: st) (simp_all add: print_node_def print_def)

lemma print_leaf_loop_eq:
  "print_leaf_loop st ks
   = st\<lparr>out := out st @ map (\<lambda>f. node_line (depth st) (the_node (graph st) f))
                          (filter (\<lambda>f. \<not> has_children (graph st) f) ks)\<rparr>"
  by (induction ks arbitrary: st) (simp_all add: print_node_def print_def)

lemma out_print_top_level_nodes:
  "out (print_top_level_nodes st)
   = out st @ map (\<lambda>f. listing_line (the_node (graph st) f))
                (filter (\<lambda>f. \<not> has_parent (the_node (graph st) f)) (map fst (graph st)))"
  by (simp add: print_top_level_nodes_def Let_def print_top_level_loop_eq the_node_clear
      keys_clear depth_clear out_clear node_line_cleared)

lemma out_print_leaf_nodes:
  "out (print_leaf_nodes st)
   = out st @ map (\<lambda>f. listing_line (the_node (graph st) f))
                (filter (\<lambda>f. \<not> has_children (graph st) f) (map fst (graph st)))"
  by (simp add: print_leaf_nodes_def Let_def print_leaf_loop_eq the_node_clear
      keys_clear depth_clear out_clear node_line_cleared has_children_clear)

text \<open>
  Claim C9, as amended. In the top-level and leaf listings every emitted line is the path of
  a node with a leading \<^verbatim>\<open>./\<close> (or dot and backslash) removed, not indented and without the \<^verbatim>\<open> *\<close> suffix
  (\<^verbatim>\<open>clear_visisted\<close> resets \<^verbatim>\<open>depth\<close> and every \<^verbatim>\<open>visited\<close> flag first), followed by the
  \<^verbatim>\<open> ?\<close> suffix exactly when the node is missing. The top-level listing has one line for each
  node without a parent, the leaf listing one for each node without children, in the order
  of the dictionary.
\<close>

theorem listing_lines:
  "out (print_top_level_nodes st)
   = out st @ map (\<lambda>f. strip_dot (file' (the_node (graph st) f))
                        @ (if missing (the_node (graph st) f) then '' ?'' else []))
                (filter (\<lambda>f. \<not> has_parent (the_node (graph st) f)) (map fst (graph st)))
   \<and> out (print_leaf_nodes st)
   = out st @ map (\<lambda>f. strip_dot (file' (the_node (graph st) f))
                        @ (if missing (the_node (graph st) f) then '' ?'' else []))
                (filter (\<lambda>f. \<not> has_children (graph st) f) (map fst (graph st)))"
  by (simp add: out_print_top_level_nodes out_print_leaf_nodes listing_line_def)

text \<open>
  \<^verbatim>\<open>./a.c\<close> includes \<^verbatim>\<open>m.h\<close>, which no directory has, and \<^verbatim>\<open>./b.h\<close>, which includes nothing.
\<close>

definition e9 :: env where
  "e9 = \<lparr>verbose = False, inc_search_paths = [], SYS_INC_PATHS = [],
         files = [(''./a.c'', [''#include '' @ [DQ] @ ''m.h'' @ [DQ] @ [NL],
                               ''#include '' @ [DQ] @ ''b.h'' @ [DQ] @ [NL]]),
                  (''./b.h'', [])]\<rparr>"

definition s9 :: state where
  "s9 = (cpp_scan_file e9 init ''./a.c'')\<lparr>out := []\<rparr>"

lemma s9_graph:
  "graph s9 =
     [(''./a.c'', \<lparr>file' = ''./a.c'', children = [], has_parent = True, visited = True,
                  missing = False\<rparr>),
      (''m.h'', \<lparr>file' = ''m.h'', children = [''./a.c''], has_parent = False, visited = True,
                missing = True\<rparr>),
      (''./b.h'', \<lparr>file' = ''./b.h'', children = [''./a.c''], has_parent = False,
                  visited = True, missing = False\<rparr>)]"
  unfolding s9_def by code_simp

theorem listing_lines_witness:
  "out (print_top_level_nodes s9) = [''m.h ?'', ''b.h''] \<and> out (print_leaf_nodes s9) = [''a.c'']"
proof -
  have "out s9 = []"
    by (simp add: s9_def)
  then show ?thesis
    using listing_lines [of s9]
    by (simp add: s9_graph the_node_def has_children_def strip_dot_def startswith_def BSL_def)
qed

text \<open>The line of the missing node \<^verbatim>\<open>m.h\<close> in the top-level listing carries the \<^verbatim>\<open> ?\<close> suffix.\<close>

theorem listing_missing_suffix:
  "missing (the_node (graph s9) ''m.h'') \<and> out (print_top_level_nodes s9) = [''m.h ?'', ''b.h'']"
  by code_simp

subsection \<open>Rendering a tree\<close>



lemma print_tree_visited:
  "\<not> MAX_DEPTH < depth st \<Longrightarrow> visited (the_node (graph st) self)
   \<Longrightarrow> print_tree st self = (print_node st self, None)"
  by (simp add: print_tree.simps graph_of_print_node)

lemma print_children_visited:
  "\<not> MAX_DEPTH < depth st \<Longrightarrow> visited (the_node (graph st) child)
   \<Longrightarrow> print_children st (child # rest) = (print_node st child, False)"
  by (simp add: print_tree_visited)







text \<open>
  \<^verbatim>\<open>b.c\<close> includes \<^verbatim>\<open>a.h\<close> and \<^verbatim>\<open>h.h\<close>, \<^verbatim>\<open>a.h\<close> includes \<^verbatim>\<open>h.h\<close>, and \<^verbatim>\<open>c.c\<close> includes
  \<^verbatim>\<open>h.h\<close>; \<^verbatim>\<open>b.c\<close> is scanned first, then \<^verbatim>\<open>c.c\<close>.
\<close>

definition e5 :: env where
  "e5 = \<lparr>verbose = False, inc_search_paths = [], SYS_INC_PATHS = [],
         files = [(''./b.c'', [''#include '' @ [DQ] @ ''a.h'' @ [DQ] @ [NL],
                               ''#include '' @ [DQ] @ ''h.h'' @ [DQ] @ [NL]]),
                  (''./c.c'', [''#include '' @ [DQ] @ ''h.h'' @ [DQ] @ [NL]]),
                  (''./a.h'', [''#include '' @ [DQ] @ ''h.h'' @ [DQ] @ [NL]]),
                  (''./h.h'', [])]\<rparr>"

definition s5 :: state where
  "s5 = cpp_scan_file e5 (cpp_scan_file e5 init ''./b.c'') ''./c.c''"

text \<open>
  Claim C5 fails on the code. \<^verbatim>\<open>b.c\<close> includes \<^verbatim>\<open>a.h\<close> and \<^verbatim>\<open>h.h\<close>, \<^verbatim>\<open>a.h\<close> includes \<^verbatim>\<open>h.h\<close>,
  and \<^verbatim>\<open>c.c\<close> includes \<^verbatim>\<open>h.h\<close>: the children of \<^verbatim>\<open>h.h\<close> are \<^verbatim>\<open>a.h\<close>, \<^verbatim>\<open>b.c\<close> and \<^verbatim>\<open>c.c\<close>.
  The render of the full graph prints \<^verbatim>\<open>b.c\<close> below \<^verbatim>\<open>a.h\<close>, then \<^verbatim>\<open>b.c\<close> again with its
  marker, and ends: the bare \<^verbatim>\<open>return\<close> for a visited node gives \<^verbatim>\<open>None\<close>, which the loop
  of the parent takes for \<^verbatim>\<open>False\<close>. The sibling \<^verbatim>\<open>c.c\<close> is never printed, and \<^verbatim>\<open>depth\<close> is
  left at 1.
\<close>

theorem visited_child_ends_render:
  "children (the_node (graph s5) ''./h.h'') = [''./a.h'', ''./b.c'', ''./c.c'']
   \<and> out (print_graph s5) = [''h.h'', ''  a.h'', ''    b.c'', ''  b.c *'']
   \<and> depth (print_graph s5) = 1"
  by code_simp

subsection \<open>What scanning keeps\<close>

text \<open>
  \<open>grows g g'\<close>: \<open>g'\<close> has the keys of \<open>g\<close>, and every node has in \<open>g'\<close> the children it has in
  \<open>g\<close> and the flags that are set in \<open>g\<close>. Every step of a scan makes the graph grow.
\<close>

definition grows :: "graph \<Rightarrow> graph \<Rightarrow> bool" where
  "grows g g' =
     (\<forall>f. (map_of g f \<noteq> None \<longrightarrow> map_of g' f \<noteq> None)
        \<and> set (children (the_node g f)) \<subseteq> set (children (the_node g' f))
        \<and> (has_parent (the_node g f) \<longrightarrow> has_parent (the_node g' f))
        \<and> (visited (the_node g f) \<longrightarrow> visited (the_node g' f))
        \<and> (missing (the_node g f) \<longrightarrow> missing (the_node g' f)))"

lemma grows_refl: "grows g g"
  by (simp add: grows_def)

lemma grows_trans: "grows g g' \<Longrightarrow> grows g' g'' \<Longrightarrow> grows g g''"
  unfolding grows_def by (meson subset_trans)

lemma grows_get_node: "grows g (get_node g f)"
  by (simp add: grows_def the_node_get_node map_of_get_node)

lemma grows_mark_visited: "grows g (upd_node g f (\<lambda>n. n\<lparr>visited := True\<rparr>))"
  by (simp add: grows_def the_node_upd_node map_of_upd_node)

lemma grows_mark_missing: "grows g (upd_node g f (\<lambda>n. n\<lparr>missing := True\<rparr>))"
  by (simp add: grows_def the_node_upd_node map_of_upd_node)

lemma grows_add_child: "grows g (add_child g s nd)"
  by (auto simp: grows_def add_child_def the_node_upd_node map_of_upd_node)

lemma scan_induct_rel:
  assumes r_refl: "\<And>g. R g g"
    and r_trans: "\<And>g g' g''. R g g' \<Longrightarrow> R g' g'' \<Longrightarrow> R g g''"
    and r_dom: "\<And>g g' f. R g g' \<Longrightarrow> map_of g f \<noteq> None \<Longrightarrow> map_of g' f \<noteq> None"
    and get: "\<And>g f. R g (get_node g f)"
    and vis: "\<And>g f. R g (upd_node g f (\<lambda>n. n\<lparr>visited := True\<rparr>))"
    and mis: "\<And>g f. R g (upd_node g f (\<lambda>n. n\<lparr>missing := True\<rparr>))"
    and add: "\<And>g s nd. map_of g s \<noteq> None \<Longrightarrow> map_of g nd \<noteq> None \<Longrightarrow> R g (add_child g s nd)"
  shows "R (graph st) (graph (cpp_scan_file e st path))"
    and "map_of (graph st') p \<noteq> None \<Longrightarrow> R (graph st') (graph (scan_includes e p st' incs))"
proof (induct e st path and e p st' incs rule: cpp_scan_file_scan_includes.induct)
  case (1 e st path)
  let ?g1 = "get_node (graph st) path"
  let ?g2 = "upd_node ?g1 path (\<lambda>n. n\<lparr>visited := True\<rparr>)"
  have g2: "R (graph st) ?g2"
    using r_trans [OF get vis] .
  show ?case
  proof (cases "visited (the_node ?g1 path)")
    case True
    then show ?thesis
      by (simp add: cpp_scan_file.simps [of e st path] graph_log get)
  next
    case nv: False
    show ?thesis
    proof (cases "map_of (files e) path")
      case None
      then show ?thesis
        using nv r_trans [OF g2 mis]
        by (simp add: cpp_scan_file.simps [of e st path] graph_error)
    next
      case (Some lines)
      let ?st3 = "log e (st\<lparr>graph := ?g2\<rparr>) (''Scanning '' @ path)"
      let ?r = "scan_lines e path (fst (split path)) lines 1 ([], ?st3)"
      have nv': "\<not> visited (the_node (graph (st\<lparr>graph := ?g1\<rparr>)) path)"
        using nv by simp
      have gr: "graph (snd ?r) = ?g2"
        by (simp add: graph_scan_lines graph_log)
      have "map_of ?g2 path \<noteq> None"
        by (simp add: map_of_upd_node in_get_node)
      then have "R (graph (snd ?r)) (graph (scan_includes e path (snd ?r) (fst ?r)))"
        using 1 [OF refl nv' refl Some refl refl refl] gr by simp
      then have "R (graph st) (graph (scan_includes e path (snd ?r) (fst ?r)))"
        using r_trans [OF g2] gr by simp
      then show ?thesis
        using nv Some by (simp add: cpp_scan_file.simps [of e st path] Let_def)
    qed
  qed
next
  case (2 e path st)
  then show ?case by (simp add: r_refl)
next
  case (3 e path st inc_path rest)
  let ?g1 = "add_child (get_node (graph st) inc_path) inc_path path"
  let ?st1 = "st\<lparr>graph := ?g1\<rparr>"
  let ?st2 = "cpp_scan_file e ?st1 inc_path"
  have p1: "map_of (get_node (graph st) inc_path) path \<noteq> None"
    using r_dom [OF get 3(3)] .
  have a: "R (graph st) (graph ?st1)"
    using r_trans [OF get add [OF in_get_node p1]] by simp
  have b: "R (graph ?st1) (graph ?st2)"
    by (rule 3(1))
  have "map_of (graph ?st2) path \<noteq> None"
    using r_dom [OF r_trans [OF a b] 3(3)] .
  then have c: "R (graph ?st2) (graph (scan_includes e path ?st2 rest))"
    by (rule 3(2))
  show ?case
    using r_trans [OF r_trans [OF a b] c] by simp
qed

lemma scan_grows:
  shows "grows (graph st) (graph (cpp_scan_file e st path))"
    and "map_of (graph st') p \<noteq> None \<Longrightarrow> grows (graph st') (graph (scan_includes e p st' incs))"
proof -
  have d: "map_of g' f \<noteq> None" if "grows g g'" "map_of g f \<noteq> None" for g g' f
    using that by (simp add: grows_def)
  show "grows (graph st) (graph (cpp_scan_file e st path))"
    by (rule scan_induct_rel(1) [where R = grows, OF grows_refl grows_trans d grows_get_node
          grows_mark_visited grows_mark_missing grows_add_child])
  show "grows (graph st') (graph (scan_includes e p st' incs))" if "map_of (graph st') p \<noteq> None"
    by (rule scan_induct_rel(2) [where R = grows, OF grows_refl grows_trans d grows_get_node
          grows_mark_visited grows_mark_missing grows_add_child that])
qed

text \<open>
  \<open>linked g\<close>: every child of a node is a node of the dictionary and has its
  \<^verbatim>\<open>has_parent\<close> flag set. \<^verbatim>\<open>add_child\<close> is the only assignment to \<^verbatim>\<open>children\<close> and sets the
  flag of the child it appends, so the graph that \<^verbatim>\<open>main\<close> builds from \<^verbatim>\<open>Graph()\<close> is linked
  after every step (\<open>linked_empty\<close>, \<open>scan_linked\<close>).
\<close>

definition linked :: "graph \<Rightarrow> bool" where
  "linked g =
     (\<forall>f c. c \<in> set (children (the_node g f))
        \<longrightarrow> map_of g c \<noteq> None \<and> has_parent (the_node g c))"

lemma linked_empty: "linked []"
  by (simp add: linked_def the_node_def Node_def)

lemma linked_get_node: "linked g \<Longrightarrow> linked (get_node g f)"
  by (simp add: linked_def the_node_get_node map_of_get_node)

lemma linked_mark_visited: "linked g \<Longrightarrow> linked (upd_node g f (\<lambda>n. n\<lparr>visited := True\<rparr>))"
  unfolding linked_def by (simp add: the_node_upd_node map_of_upd_node) (metis option.distinct(1))

lemma linked_mark_missing: "linked g \<Longrightarrow> linked (upd_node g f (\<lambda>n. n\<lparr>missing := True\<rparr>))"
  unfolding linked_def by (simp add: the_node_upd_node map_of_upd_node) (metis option.distinct(1))

lemma linked_add_child:
  "map_of g nd \<noteq> None \<Longrightarrow> linked g \<Longrightarrow> linked (add_child g s nd)"
  unfolding linked_def
  by (auto simp: add_child_def the_node_upd_node map_of_upd_node) (metis option.distinct(1))+

lemma add_child_links:
  "map_of g s \<noteq> None \<Longrightarrow> map_of g nd \<noteq> None \<Longrightarrow> linked g
   \<Longrightarrow> nd \<in> set (children (the_node (add_child g s nd) s))
       \<and> has_parent (the_node (add_child g s nd) nd)"
  by (auto simp: linked_def add_child_def the_node_upd_node map_of_upd_node)

text \<open>
  \<open>keeps_linked g g'\<close>: the graph grows and stays linked if it was.
\<close>

definition keeps_linked :: "graph \<Rightarrow> graph \<Rightarrow> bool" where
  "keeps_linked g g' = (grows g g' \<and> (linked g \<longrightarrow> linked g'))"

lemma scan_keeps_linked:
  shows "keeps_linked (graph st) (graph (cpp_scan_file e st path))"
    and "map_of (graph st') p \<noteq> None
         \<Longrightarrow> keeps_linked (graph st') (graph (scan_includes e p st' incs))"
proof -
  have r: "keeps_linked g g" for g
    by (simp add: keeps_linked_def grows_refl)
  have t: "keeps_linked g g''" if "keeps_linked g g'" "keeps_linked g' g''" for g g' g''
    using that grows_trans by (auto simp: keeps_linked_def)
  have d: "map_of g' f \<noteq> None" if "keeps_linked g g'" "map_of g f \<noteq> None" for g g' f
    using that by (simp add: keeps_linked_def grows_def)
  have g: "keeps_linked g (get_node g f)" for g f
    by (simp add: keeps_linked_def grows_get_node linked_get_node)
  have v: "keeps_linked g (upd_node g f (\<lambda>n. n\<lparr>visited := True\<rparr>))" for g f
    by (simp add: keeps_linked_def grows_mark_visited linked_mark_visited)
  have m: "keeps_linked g (upd_node g f (\<lambda>n. n\<lparr>missing := True\<rparr>))" for g f
    by (simp add: keeps_linked_def grows_mark_missing linked_mark_missing)
  have a: "keeps_linked g (add_child g s nd)"
    if "map_of g s \<noteq> None" "map_of g nd \<noteq> None" for g s nd
    using that by (simp add: keeps_linked_def grows_add_child linked_add_child)
  show "keeps_linked (graph st) (graph (cpp_scan_file e st path))"
    by (rule scan_induct_rel(1) [where R = keeps_linked, OF r t d g v m a])
  show "keeps_linked (graph st') (graph (scan_includes e p st' incs))"
    if "map_of (graph st') p \<noteq> None"
    by (rule scan_induct_rel(2) [where R = keeps_linked, OF r t d g v m a that])
qed

lemma scan_linked: "linked (graph st) \<Longrightarrow> linked (graph (cpp_scan_file e st path))"
  using scan_keeps_linked(1) [of st e path] by (simp add: keeps_linked_def)

lemma scan_includes_links:
  "linked (graph st) \<Longrightarrow> map_of (graph st) p \<noteq> None \<Longrightarrow> b \<in> set incs
   \<Longrightarrow> p \<in> set (children (the_node (graph (scan_includes e p st incs)) b))
       \<and> has_parent (the_node (graph (scan_includes e p st incs)) p)"
proof (induction incs arbitrary: st)
  case Nil
  then show ?case by simp
next
  case (Cons i rest)
  let ?g0 = "get_node (graph st) i"
  let ?st1 = "st\<lparr>graph := add_child ?g0 i p\<rparr>"
  let ?st2 = "cpp_scan_file e ?st1 i"
  have p0: "map_of ?g0 p \<noteq> None"
    using Cons.prems(2) by (simp add: map_of_get_node)
  have l0: "linked ?g0"
    using Cons.prems(1) by (rule linked_get_node)
  have l1: "linked (graph ?st1)"
    using linked_add_child [OF p0 l0] by simp
  have p1: "map_of (graph ?st1) p \<noteq> None"
    using p0 grows_add_child [of ?g0 i p] by (simp add: grows_def)
  have l2: "linked (graph ?st2)"
    using l1 by (rule scan_linked)
  have g12: "grows (graph ?st1) (graph ?st2)"
    by (rule scan_grows(1))
  have p2: "map_of (graph ?st2) p \<noteq> None"
    using g12 p1 by (simp add: grows_def)
  have g2e: "grows (graph ?st2) (graph (scan_includes e p ?st2 rest))"
    using p2 by (rule scan_grows(2))
  show ?case
  proof (cases "b = i")
    case True
    have "p \<in> set (children (the_node (graph ?st1) i)) \<and> has_parent (the_node (graph ?st1) p)"
      using add_child_links [OF in_get_node p0 l0] by simp
    then have "p \<in> set (children (the_node (graph (scan_includes e p ?st2 rest)) i))
               \<and> has_parent (the_node (graph (scan_includes e p ?st2 rest)) p)"
      using grows_trans [OF g12 g2e] unfolding grows_def by blast
    then show ?thesis using True by simp
  next
    case False
    then have "b \<in> set rest" using Cons.prems(3) by simp
    then show ?thesis
      using Cons.IH [OF l2 p2] by simp
  qed
qed

subsection \<open>Edges made by a scan\<close>

text \<open>
  \<open>tracked_include e d line\<close>: the path that the loop body appends to \<open>includes\<close> for a line of a
  file in directory \<open>d\<close>, if any: the directive is matched, its delimiters are not
  mismatched and the resolved path is not below a system header path.
\<close>

definition tracked_include :: "env \<Rightarrow> string \<Rightarrow> string \<Rightarrow> string option" where
  "tracked_include e d line =
     (case re_match CPP_INC_PATTERN line of
        None \<Rightarrow> None
      | Some groups \<Rightarrow>
          if mismatched (groups ! 0) (groups ! 2) then None
          else
            (let inc_path = resolve_path e d (groups ! 1) (groups ! 0 = [DQ])
             in if is_sys_header_path e (fst (split inc_path)) then None else Some inc_path))"

lemma fst_scan_line_tracked:
  "fst (scan_line e p d n line (incs, st))
   = incs @ (case tracked_include e d line of None \<Rightarrow> [] | Some i \<Rightarrow> [i])"
  by (simp add: scan_line_def tracked_include_def Let_def split: option.splits)

lemma fst_scan_lines_tracked:
  "fst (scan_lines e p d ls n (incs, st))
   = incs @ concat (map (\<lambda>line. case tracked_include e d line of None \<Rightarrow> [] | Some i \<Rightarrow> [i]) ls)"
proof (induction ls arbitrary: n incs st)
  case Nil
  then show ?case by simp
next
  case (Cons l ls)
  obtain incs' st' where r: "scan_line e p d n l (incs, st\<lparr>lines_read := lines_read st + 1\<rparr>)
      = (incs', st')"
    by (cases "scan_line e p d n l (incs, st\<lparr>lines_read := lines_read st + 1\<rparr>)")
  have "incs' = incs @ (case tracked_include e d l of None \<Rightarrow> [] | Some i \<Rightarrow> [i])"
    using fst_scan_line_tracked [of e p d n l incs "st\<lparr>lines_read := lines_read st + 1\<rparr>"] r
    by simp
  then show ?case
    using Cons.IH [of "n + 1" incs' st'] r by simp
qed

lemma in_scan_lines:
  "line \<in> set ls \<Longrightarrow> tracked_include e d line = Some b
   \<Longrightarrow> b \<in> set (fst (scan_lines e p d ls n (incs, st)))"
  by (force simp: fst_scan_lines_tracked)



lemma visited_in_dict: "visited (the_node g f) \<Longrightarrow> map_of g f \<noteq> None"
  by (auto simp: the_node_def Node_def split: option.splits)

lemma get_node_present: "map_of g f \<noteq> None \<Longrightarrow> get_node g f = g"
  by (simp add: get_node_def)

lemma scan_visited_file:
  "visited (the_node (graph st) path)
   \<Longrightarrow> cpp_scan_file e st path = log e st (''Ignoring scanned file: '' @ path)"
  using visited_in_dict [of "graph st" path]
  by (simp add: cpp_scan_file.simps [of e st path] get_node_present)

lemma scan_missing_file:
  "\<not> visited (the_node (graph st) path) \<Longrightarrow> map_of (files e) path = None
   \<Longrightarrow> cpp_scan_file e st path
       = error (st\<lparr>graph := upd_node (upd_node (get_node (graph st) path) path
                                  (\<lambda>n. n\<lparr>visited := True\<rparr>)) path (\<lambda>n. n\<lparr>missing := True\<rparr>)\<rparr>)
           (path @ '' is missing. Did you add include search paths?'')"
  by (simp add: cpp_scan_file.simps [of e st path] the_node_get_node)

lemma scan_existing_file:
  "\<not> visited (the_node (graph st) path) \<Longrightarrow> map_of (files e) path = Some lines
   \<Longrightarrow> cpp_scan_file e st path
       = (let st2 = st\<lparr>graph := upd_node (get_node (graph st) path) path
                                   (\<lambda>n. n\<lparr>visited := True\<rparr>)\<rparr>;
              r = scan_lines e path (fst (split path)) lines 1
                    ([], log e st2 (''Scanning '' @ path))
          in scan_includes e path (snd r) (fst r))"
  by (simp add: cpp_scan_file.simps [of e st path] the_node_get_node Let_def)

lemma scan_marks_visited: "visited (the_node (graph (cpp_scan_file e st path)) path)"
proof (cases "visited (the_node (graph st) path)")
  case True
  then show ?thesis by (simp add: scan_visited_file graph_log)
next
  case nv: False
  let ?g2 = "upd_node (get_node (graph st) path) path (\<lambda>n. n\<lparr>visited := True\<rparr>)"
  have v2: "visited (the_node ?g2 path)"
    by (rule visited_mark_get)
  show ?thesis
  proof (cases "map_of (files e) path")
    case None
    then show ?thesis
      using nv v2 by (simp add: scan_missing_file graph_error the_node_upd_node)
  next
    case (Some lines)
    let ?r = "scan_lines e path (fst (split path)) lines 1
                ([], log e (st\<lparr>graph := ?g2\<rparr>) (''Scanning '' @ path))"
    have g: "graph (snd ?r) = ?g2"
      by (simp add: graph_scan_lines graph_log)
    have "map_of (graph (snd ?r)) path \<noteq> None"
      using g v2 visited_in_dict by simp
    then have "grows (graph (snd ?r)) (graph (scan_includes e path (snd ?r) (fst ?r)))"
      by (rule scan_grows(2))
    then have "visited (the_node (graph (scan_includes e path (snd ?r) (fst ?r))) path)"
      using g v2 by (simp add: grows_def)
    then show ?thesis
      using nv Some by (simp add: scan_existing_file Let_def)
  qed
qed

lemma scan_file_links:
  assumes l: "linked (graph st)" and nv: "\<not> visited (the_node (graph st) a)"
    and f: "map_of (files e) a = Some lines" and line: "line \<in> set lines"
    and t: "tracked_include e (fst (split a)) line = Some b"
  shows "a \<in> set (children (the_node (graph (cpp_scan_file e st a)) b))
         \<and> has_parent (the_node (graph (cpp_scan_file e st a)) a)"
proof -
  let ?g2 = "upd_node (get_node (graph st) a) a (\<lambda>n. n\<lparr>visited := True\<rparr>)"
  let ?r = "scan_lines e a (fst (split a)) lines 1
              ([], log e (st\<lparr>graph := ?g2\<rparr>) (''Scanning '' @ a))"
  have g: "graph (snd ?r) = ?g2"
    by (simp add: graph_scan_lines graph_log)
  have l2: "linked (graph (snd ?r))"
    using linked_mark_visited [OF linked_get_node [OF l]] g by simp
  have d2: "map_of (graph (snd ?r)) a \<noteq> None"
    using g visited_in_dict [OF visited_mark_get] by simp
  have b: "b \<in> set (fst ?r)"
    using line t by (rule in_scan_lines)
  have "a \<in> set (children (the_node (graph (scan_includes e a (snd ?r) (fst ?r))) b))
        \<and> has_parent (the_node (graph (scan_includes e a (snd ?r) (fst ?r))) a)"
    using l2 d2 b by (rule scan_includes_links)
  then show ?thesis
    using nv f by (simp add: scan_existing_file Let_def)
qed

lemma directive_links:
  assumes "map_of (files e) a = Some lines" and "line \<in> set lines"
    and "line = CHR ''#'' # replicate n (CHR '' '') @ ''include'' @ replicate m (CHR '' '')
                  @ op # sp @ cl # rest"
    and "(op = CHR ''<'' \<and> cl = CHR ''>'') \<or> (op = DQ \<and> cl = DQ)"
    and "CHR ''>'' \<notin> set sp" and "DQ \<notin> set sp"
    and "resolve_path e (fst (split a)) sp (op = DQ) = b"
    and "\<not> is_sys_header_path e (fst (split b))"
    and "\<not> visited (the_node (graph st) a)" and "linked (graph st)"
  shows "a \<in> set (children (the_node (graph (cpp_scan_file e st a)) b))
         \<and> has_parent (the_node (graph (cpp_scan_file e st a)) a)"
proof -
  have "re_match CPP_INC_PATTERN
          (CHR ''#'' # replicate n (CHR '' '') @ ''include'' @ replicate m (CHR '' '')
             @ op # sp @ cl # rest) = Some [[op], sp, [cl]]"
    using assms(4,5,6) by (intro match_directive) auto
  then have "re_match CPP_INC_PATTERN line = Some [[op], sp, [cl]]"
    using assms(3) by simp
  moreover have "\<not> mismatched [op] [cl]"
    using assms(4) by (auto simp: mismatched_def DQ_def)
  ultimately have "tracked_include e (fst (split a)) line = Some b"
    using assms(7,8) by (simp add: tracked_include_def)
  then show ?thesis
    using scan_file_links [OF assms(10,9,1,2)] by blast
qed

text \<open>
  Claim C1, as amended. Let a line of the text of \<open>a\<close> begin, with no character before the
  \<^verbatim>\<open>#\<close>, with an include directive in angle brackets or in double quotes whose spelling
  \<^verbatim>\<open>resolve_path\<close> resolves to \<open>b\<close>, and let the directory part of \<open>b\<close> not start with a
  system header path. After the call of \<^verbatim>\<open>cpp_scan_file\<close> that reads \<open>a\<close> (the node of \<open>a\<close>
  was not visited before), in a graph as the scanner builds it (\<open>linked\<close>: it holds of the
  empty graph and every scan keeps it), the node of \<open>b\<close> has \<open>a\<close> among its children and the
  node of \<open>a\<close> has a parent.
\<close>

theorem include_adds_edge:
  assumes "map_of (files e) a = Some lines" and "line \<in> set lines"
    and "line = CHR ''#'' # replicate n (CHR '' '') @ ''include'' @ replicate m (CHR '' '')
                  @ op # sp @ cl # rest"
    and "(op = CHR ''<'' \<and> cl = CHR ''>'') \<or> (op = DQ \<and> cl = DQ)"
    and "CHR ''>'' \<notin> set sp" and "DQ \<notin> set sp"
    and "resolve_path e (fst (split a)) sp (op = DQ) = b"
    and "\<not> is_sys_header_path e (fst (split b))"
    and "\<not> visited (the_node (graph st) a)" and "linked (graph st)"
  shows "a \<in> set (children (the_node (graph (cpp_scan_file e st a)) b))
         \<and> has_parent (the_node (graph (cpp_scan_file e st a)) a)"
  using assms by (rule directive_links)

text \<open>
  \<^verbatim>\<open>src/main.cpp\<close> includes \<^verbatim>\<open>stdio.h\<close>, found below the system header path, then
  \<^verbatim>\<open>ind.h\<close> by a directive after two spaces, then \<^verbatim>\<open>util.h\<close>, which includes \<^verbatim>\<open>base.h\<close>.
\<close>

definition e1 :: env where
  "e1 = \<lparr>verbose = False, inc_search_paths = [''/usr/include''],
         SYS_INC_PATHS = [''/usr/include''],
         files = [(''src/main.cpp'', [''#include <stdio.h>'' @ [NL],
                                     ''  #include '' @ [DQ] @ ''ind.h'' @ [DQ] @ [NL],
                                     ''#include '' @ [DQ] @ ''util.h'' @ [DQ] @ [NL]]),
                  (''src/util.h'', [''#include '' @ [DQ] @ ''base.h'' @ [DQ] @ [NL]]),
                  (''src/base.h'', []),
                  (''src/ind.h'', []),
                  (''/usr/include/stdio.h'', [])]\<rparr>"

theorem include_adds_edge_witness:
  "map_of (files e1) ''src/main.cpp''
     = Some [''#include <stdio.h>'' @ [NL],
             ''  #include '' @ [DQ] @ ''ind.h'' @ [DQ] @ [NL],
             ''#include '' @ [DQ] @ ''util.h'' @ [DQ] @ [NL]]
   \<and> resolve_path e1 (fst (split ''src/main.cpp'')) ''util.h'' True = ''src/util.h''
   \<and> \<not> is_sys_header_path e1 (fst (split ''src/util.h''))
   \<and> \<not> visited (the_node (graph init) ''src/main.cpp'')
   \<and> linked (graph init)
   \<and> ''src/main.cpp''
       \<in> set (children (the_node (graph (cpp_scan_file e1 init ''src/main.cpp'')) ''src/util.h''))
   \<and> has_parent (the_node (graph (cpp_scan_file e1 init ''src/main.cpp'')) ''src/main.cpp'')"
proof -
  let ?lines = "[''#include <stdio.h>'' @ [NL],
                 ''  #include '' @ [DQ] @ ''ind.h'' @ [DQ] @ [NL],
                 ''#include '' @ [DQ] @ ''util.h'' @ [DQ] @ [NL]]"
  let ?line = "''#include '' @ [DQ] @ ''util.h'' @ [DQ] @ [NL]"
  have h1: "map_of (files e1) ''src/main.cpp'' = Some ?lines"
    by (simp add: e1_def)
  have h2: "?line \<in> set ?lines"
    by simp
  have h3: "?line = CHR ''#'' # replicate 0 (CHR '' '') @ ''include'' @ replicate 1 (CHR '' '')
                     @ DQ # ''util.h'' @ DQ # [NL]"
    by simp
  have h4: "(DQ = CHR ''<'' \<and> DQ = CHR ''>'') \<or> (DQ = DQ \<and> DQ = DQ)"
    by simp
  have h5: "CHR ''>'' \<notin> set ''util.h''" and h6: "DQ \<notin> set ''util.h''"
    by (simp_all add: DQ_def)
  have h7: "resolve_path e1 (fst (split ''src/main.cpp'')) ''util.h'' (DQ = DQ) = ''src/util.h''"
    by code_simp
  have h8: "\<not> is_sys_header_path e1 (fst (split ''src/util.h''))"
    by code_simp
  have h9: "\<not> visited (the_node (graph init) ''src/main.cpp'')"
    by (simp add: init_def the_node_def Node_def)
  have h10: "linked (graph init)"
    by (simp add: init_def linked_empty)
  show ?thesis
    using h1 h7 h8 h9 h10 include_adds_edge [OF h1 h2 h3 h4 h5 h6 h7 h8 h9 h10] by simp
qed

text \<open>
  The directive \<^verbatim>\<open>#include <stdio.h>\<close> of \<^verbatim>\<open>src/main.cpp\<close> resolves to
  \<^verbatim>\<open>/usr/include/stdio.h\<close>, below the system header path \<^verbatim>\<open>/usr/include\<close>, and the directive
  for \<^verbatim>\<open>ind.h\<close>, which would resolve to \<^verbatim>\<open>src/ind.h\<close>, stands after two spaces: the scan
  makes no node and no edge for either.
\<close>

theorem include_without_edge:
  "resolve_path e1 (fst (split ''src/main.cpp'')) ''stdio.h'' False = ''/usr/include/stdio.h''
   \<and> map_of (graph (cpp_scan_file e1 init ''src/main.cpp'')) ''/usr/include/stdio.h'' = None
   \<and> ''src/main.cpp''
       \<notin> set (children (the_node (graph (cpp_scan_file e1 init ''src/main.cpp''))
                    ''/usr/include/stdio.h''))
   \<and> resolve_path e1 (fst (split ''src/main.cpp'')) ''ind.h'' True = ''src/ind.h''
   \<and> map_of (graph (cpp_scan_file e1 init ''src/main.cpp'')) ''src/ind.h'' = None
   \<and> ''src/main.cpp''
       \<notin> set (children (the_node (graph (cpp_scan_file e1 init ''src/main.cpp''))
                    ''src/ind.h''))"
  by code_simp

subsection \<open>Scanning a path again\<close>

lemma upd_node_absent: "map_of g f = None \<Longrightarrow> upd_node g f F = g"
  by (induction g) (auto simp: upd_node_def split: if_splits)

lemma upd_node_twice: "upd_node (upd_node g f F) f G = upd_node g f (\<lambda>n. G (F n))"
  by (induction g) (auto simp: upd_node_def)

lemma add_child_present: "nd \<in> set (children (the_node g self)) \<Longrightarrow> add_child g self nd = g"
  by (simp add: add_child_def)

lemma add_child_idem: "add_child (add_child g self nd) self nd = add_child g self nd"
proof (cases "nd \<in> set (children (the_node g self))")
  case True
  then show ?thesis by (simp add: add_child_present)
next
  case False
  show ?thesis
  proof (cases "map_of g self")
    case None
    then have g1: "add_child g self nd = upd_node g nd (\<lambda>n. n\<lparr>has_parent := True\<rparr>)"
      using False by (simp add: add_child_def upd_node_absent)
    have "map_of (upd_node g nd (\<lambda>n. n\<lparr>has_parent := True\<rparr>)) self = None"
      using None by (auto simp: map_of_upd_node)
    then have "add_child (upd_node g nd (\<lambda>n. n\<lparr>has_parent := True\<rparr>)) self nd
               = upd_node g nd (\<lambda>n. n\<lparr>has_parent := True\<rparr>)"
      by (simp add: add_child_def upd_node_absent upd_node_twice)
    then show ?thesis using g1 by simp
  next
    case (Some n)
    then have "nd \<in> set (children (the_node (add_child g self nd) self))"
      using False by (simp add: add_child_def the_node_upd_node map_of_upd_node)
    then show ?thesis by (rule add_child_present)
  qed
qed

text \<open>
  Claim C2. Every call of \<^verbatim>\<open>cpp_scan_file\<close> leaves the node of its path visited, and no later
  scan of any path resets the flag. A call on a path whose node is visited, as the second
  call on a path is, leaves the graph as it is (no node, no edge) and reads no line.
  \<^verbatim>\<open>add_child\<close> with a child that is in the children list leaves the graph as it is, and
  adding the same child twice is adding it once.
\<close>

theorem rescan_changes_nothing:
  "visited (the_node (graph (cpp_scan_file e st path)) path)
   \<and> (visited (the_node (graph st) path)
        \<longrightarrow> visited (the_node (graph (cpp_scan_file e st other)) path)
          \<and> graph (cpp_scan_file e st path) = graph st
          \<and> lines_read (cpp_scan_file e st path) = lines_read st)
   \<and> graph (cpp_scan_file e (cpp_scan_file e st path) path) = graph (cpp_scan_file e st path)
   \<and> lines_read (cpp_scan_file e (cpp_scan_file e st path) path)
     = lines_read (cpp_scan_file e st path)
   \<and> (nd \<in> set (children (the_node g self)) \<longrightarrow> add_child g self nd = g)
   \<and> add_child (add_child g self nd) self nd = add_child g self nd"
proof -
  have a: "graph (cpp_scan_file e s p) = graph s \<and> lines_read (cpp_scan_file e s p) = lines_read s"
    if "visited (the_node (graph s) p)" for s p
    using that by (simp add: scan_visited_file log_def print_def)
  have b: "visited (the_node (graph (cpp_scan_file e st other)) path)"
    if "visited (the_node (graph st) path)"
    using that scan_grows(1) [of st e other] by (simp add: grows_def)
  show ?thesis
    using a [OF scan_marks_visited [of e st path]] a [of st path] b scan_marks_visited [of e st path]
    by (simp add: add_child_present add_child_idem)
qed

definition e2 :: env where
  "e2 = \<lparr>verbose = True, inc_search_paths = [], SYS_INC_PATHS = [],
         files = [(''a.c'', [''#include '' @ [DQ] @ ''h.h'' @ [DQ] @ [NL]]),
                  (''b.c'', [''#include '' @ [DQ] @ ''h.h'' @ [DQ] @ [NL]]),
                  (''h.h'', [''// h'' @ [NL], ''int h();'' @ [NL]])]\<rparr>"

definition s2 :: state where
  "s2 = cpp_scan_file e2 init ''a.c''"

lemma s2_eq:
  "s2 = \<lparr>graph =
           [(''a.c'', \<lparr>file' = ''a.c'', children = [], has_parent = True, visited = True,
                      missing = False\<rparr>),
            (''h.h'', \<lparr>file' = ''h.h'', children = [''a.c''], has_parent = False,
                      visited = True, missing = False\<rparr>)],
         depth = 0, max_depth_reached = 0,
         out = [''Scanning a.c'', ''  a.c >> h.h'', ''Scanning h.h''], lines_read = 3\<rparr>"
  unfolding s2_def by code_simp

theorem rescan_changes_nothing_witness:
  "visited (the_node (graph s2) ''h.h'')
   \<and> visited (the_node (graph (cpp_scan_file e2 s2 ''b.c'')) ''h.h'')
   \<and> graph (cpp_scan_file e2 s2 ''h.h'') = graph s2
   \<and> lines_read (cpp_scan_file e2 s2 ''h.h'') = 3
   \<and> ''a.c'' \<in> set (children (the_node (graph s2) ''h.h''))
   \<and> add_child (graph s2) ''h.h'' ''a.c'' = graph s2"
proof -
  have v: "visited (the_node (graph s2) ''h.h'')"
    by (simp add: s2_eq the_node_def)
  have c: "''a.c'' \<in> set (children (the_node (graph s2) ''h.h''))"
    by (simp add: s2_eq the_node_def)
  have l: "lines_read s2 = 3"
    by (simp add: s2_eq)
  show ?thesis
    using v c l
      rescan_changes_nothing [of e2 s2 "''h.h''" "''b.c''" "''a.c''" "graph s2" "''h.h''"]
    by simp
qed

subsection \<open>A path that is not a file\<close>

text \<open>
  Claim C8, as amended. When \<^verbatim>\<open>cpp_scan_file\<close> is called on a path that is not a file and
  whose node has not been visited, the node is marked visited and missing, the diagnostic
  is printed, no line is read, and no node gets a child or a parent: the children and the
  \<^verbatim>\<open>has_parent\<close> flag of every node are as before. The call returns, so the loop of the
  caller goes on.
\<close>

theorem missing_file_marked:
  assumes "\<not> isfile e path" and "\<not> visited (the_node (graph st) path)"
  shows "visited (the_node (graph (cpp_scan_file e st path)) path)
         \<and> missing (the_node (graph (cpp_scan_file e st path)) path)
         \<and> out (cpp_scan_file e st path)
           = out st @ [''ERROR: '' @ path @ '' is missing. Did you add include search paths?'']
         \<and> lines_read (cpp_scan_file e st path) = lines_read st
         \<and> (\<forall>f. children (the_node (graph (cpp_scan_file e st path)) f)
                  = children (the_node (graph st) f)
                \<and> has_parent (the_node (graph (cpp_scan_file e st path)) f)
                  = has_parent (the_node (graph st) f))"
proof -
  have f: "map_of (files e) path = None"
    using assms(1) by (simp add: isfile_def)
  have d: "map_of (get_node (graph st) path) path \<noteq> None"
    by (rule in_get_node)
  show ?thesis
    using d by (simp add: scan_missing_file [OF assms(2) f] error_def print_def
        the_node_upd_node map_of_upd_node the_node_get_node)
qed

definition e8 :: env where
  "e8 = \<lparr>verbose = False, inc_search_paths = [], SYS_INC_PATHS = [],
         files = [(''a.c'', [''#include '' @ [DQ] @ ''m.h'' @ [DQ] @ [NL]]),
                  (''b.c'', [''#include '' @ [DQ] @ ''m.h'' @ [DQ] @ [NL]])]\<rparr>"

theorem missing_file_marked_witness:
  "\<not> isfile e8 ''m.h'' \<and> \<not> visited (the_node (graph init) ''m.h'')
   \<and> cpp_scan_file e8 init ''m.h''
     = init\<lparr>graph := [(''m.h'', \<lparr>file' = ''m.h'', children = [], has_parent = False,
                                 visited = True, missing = True\<rparr>)],
            out := [''ERROR: m.h is missing. Did you add include search paths?'']\<rparr>"
proof -
  have h1: "\<not> isfile e8 ''m.h''"
    by code_simp
  have h2: "\<not> visited (the_node (graph init) ''m.h'')"
    by (simp add: init_def the_node_def Node_def)
  have ev: "cpp_scan_file e8 init ''m.h''
     = init\<lparr>graph := [(''m.h'', \<lparr>file' = ''m.h'', children = [], has_parent = False,
                                 visited = True, missing = True\<rparr>)],
            out := [''ERROR: m.h is missing. Did you add include search paths?'']\<rparr>"
    by code_simp
  show ?thesis
    using h1 h2 ev missing_file_marked [OF h1 h2] by simp
qed

text \<open>
  \<^verbatim>\<open>a.c\<close> and \<^verbatim>\<open>b.c\<close> both include \<^verbatim>\<open>m.h\<close>, which does not exist. The scan of \<^verbatim>\<open>b.c\<close> calls
  \<^verbatim>\<open>cpp_scan_file\<close> on \<^verbatim>\<open>m.h\<close> a second time, and also a direct second call finds the node
  visited: it returns at the visited check and prints no diagnostic.
\<close>

theorem missing_file_second_call_silent:
  "\<not> isfile e8 ''m.h''
   \<and> out (cpp_scan_file e8 init ''a.c'')
     = [''ERROR: m.h is missing. Did you add include search paths?'']
   \<and> out (cpp_scan_file e8 (cpp_scan_file e8 init ''a.c'') ''m.h'')
     = [''ERROR: m.h is missing. Did you add include search paths?'']
   \<and> out (cpp_scan_file e8 (cpp_scan_file e8 init ''a.c'') ''b.c'')
     = [''ERROR: m.h is missing. Did you add include search paths?'']"
  by code_simp

subsection \<open>A file that includes itself\<close>

lemma filter_except:
  "P a \<Longrightarrow> filter (\<lambda>f. \<not> P f) ks = filter (\<lambda>f. f \<noteq> a \<and> \<not> P f) ks"
  by (induction ks) auto

text \<open>
  Claim C10, as amended. Let a line of the text of \<open>a\<close> begin, with no character before the
  \<^verbatim>\<open>#\<close>, with an include directive in angle brackets or in double quotes whose spelling
  \<^verbatim>\<open>resolve_path\<close> resolves to \<open>a\<close> itself, and let the directory part of \<open>a\<close> not start with
  a system header path. After the call of \<^verbatim>\<open>cpp_scan_file\<close> that reads \<open>a\<close>, the node of \<open>a\<close>
  is among its own children and has a parent, and neither listing has a line for it: the
  top-level listing is the listing of the other nodes without a parent, the leaf listing
  that of the other nodes without children.
\<close>

theorem self_include:
  assumes "map_of (files e) a = Some lines" and "line \<in> set lines"
    and "line = CHR ''#'' # replicate n (CHR '' '') @ ''include'' @ replicate m (CHR '' '')
                  @ op # sp @ cl # rest"
    and "(op = CHR ''<'' \<and> cl = CHR ''>'') \<or> (op = DQ \<and> cl = DQ)"
    and "CHR ''>'' \<notin> set sp" and "DQ \<notin> set sp"
    and "resolve_path e (fst (split a)) sp (op = DQ) = a"
    and "\<not> is_sys_header_path e (fst (split a))"
    and "\<not> visited (the_node (graph st) a)" and "linked (graph st)"
  shows "a \<in> set (children (the_node (graph (cpp_scan_file e st a)) a))
         \<and> has_parent (the_node (graph (cpp_scan_file e st a)) a)
         \<and> out (print_top_level_nodes (cpp_scan_file e st a))
           = out (cpp_scan_file e st a)
             @ map (\<lambda>f. listing_line (the_node (graph (cpp_scan_file e st a)) f))
                 (filter (\<lambda>f. f \<noteq> a \<and> \<not> has_parent (the_node (graph (cpp_scan_file e st a)) f))
                    (map fst (graph (cpp_scan_file e st a))))
         \<and> out (print_leaf_nodes (cpp_scan_file e st a))
           = out (cpp_scan_file e st a)
             @ map (\<lambda>f. listing_line (the_node (graph (cpp_scan_file e st a)) f))
                 (filter (\<lambda>f. f \<noteq> a \<and> \<not> has_children (graph (cpp_scan_file e st a)) f)
                    (map fst (graph (cpp_scan_file e st a))))"
proof -
  let ?s = "cpp_scan_file e st a"
  have l: "a \<in> set (children (the_node (graph ?s) a)) \<and> has_parent (the_node (graph ?s) a)"
    using assms by (rule directive_links)
  then have c: "has_children (graph ?s) a"
    by (auto simp: has_children_def)
  have t: "filter (\<lambda>f. \<not> has_parent (the_node (graph ?s) f)) (map fst (graph ?s))
           = filter (\<lambda>f. f \<noteq> a \<and> \<not> has_parent (the_node (graph ?s) f)) (map fst (graph ?s))"
    using l by (intro filter_except) simp
  have f: "filter (\<lambda>f. \<not> has_children (graph ?s) f) (map fst (graph ?s))
           = filter (\<lambda>f. f \<noteq> a \<and> \<not> has_children (graph ?s) f) (map fst (graph ?s))"
    using c by (intro filter_except)
  show ?thesis
    using l t f by (simp add: out_print_top_level_nodes out_print_leaf_nodes)
qed

text \<open>
  \<^verbatim>\<open>src/loop.c\<close> includes itself. So does \<^verbatim>\<open>src/ind.c\<close>, by a directive after one space, and
  \<^verbatim>\<open>/usr/include/self.c\<close>, which is below the system header path \<^verbatim>\<open>/usr/include\<close>.
\<close>

definition e10 :: env where
  "e10 = \<lparr>verbose = False, inc_search_paths = [''/usr/include''],
          SYS_INC_PATHS = [''/usr/include''],
          files = [(''src/loop.c'', [''#include '' @ [DQ] @ ''loop.c'' @ [DQ] @ [NL]]),
                   (''src/ind.c'', ['' #include '' @ [DQ] @ ''ind.c'' @ [DQ] @ [NL]]),
                   (''/usr/include/self.c'', [''#include '' @ [DQ] @ ''self.c'' @ [DQ] @ [NL]])]\<rparr>"

theorem self_include_witness:
  "map_of (files e10) ''src/loop.c'' = Some [''#include '' @ [DQ] @ ''loop.c'' @ [DQ] @ [NL]]
   \<and> resolve_path e10 (fst (split ''src/loop.c'')) ''loop.c'' True = ''src/loop.c''
   \<and> \<not> is_sys_header_path e10 (fst (split ''src/loop.c''))
   \<and> \<not> visited (the_node (graph init) ''src/loop.c'')
   \<and> linked (graph init)
   \<and> graph (cpp_scan_file e10 init ''src/loop.c'')
     = [(''src/loop.c'', \<lparr>file' = ''src/loop.c'', children = [''src/loop.c''],
                          has_parent = True, visited = True, missing = False\<rparr>)]
   \<and> out (print_top_level_nodes (cpp_scan_file e10 init ''src/loop.c'')) = []
   \<and> out (print_leaf_nodes (cpp_scan_file e10 init ''src/loop.c'')) = []"
proof -
  let ?line = "''#include '' @ [DQ] @ ''loop.c'' @ [DQ] @ [NL]"
  have h1: "map_of (files e10) ''src/loop.c'' = Some [?line]"
    by (simp add: e10_def)
  have h2: "?line \<in> set [?line]"
    by simp
  have h3: "?line = CHR ''#'' # replicate 0 (CHR '' '') @ ''include'' @ replicate 1 (CHR '' '')
                     @ DQ # ''loop.c'' @ DQ # [NL]"
    by simp
  have h4: "(DQ = CHR ''<'' \<and> DQ = CHR ''>'') \<or> (DQ = DQ \<and> DQ = DQ)"
    by simp
  have h5: "CHR ''>'' \<notin> set ''loop.c''" and h6: "DQ \<notin> set ''loop.c''"
    by (simp_all add: DQ_def)
  have h7: "resolve_path e10 (fst (split ''src/loop.c'')) ''loop.c'' (DQ = DQ) = ''src/loop.c''"
    by code_simp
  have h8: "\<not> is_sys_header_path e10 (fst (split ''src/loop.c''))"
    by code_simp
  have h9: "\<not> visited (the_node (graph init) ''src/loop.c'')"
    by (simp add: init_def the_node_def Node_def)
  have h10: "linked (graph init)"
    by (simp add: init_def linked_empty)
  have g: "graph (cpp_scan_file e10 init ''src/loop.c'')
     = [(''src/loop.c'', \<lparr>file' = ''src/loop.c'', children = [''src/loop.c''],
                          has_parent = True, visited = True, missing = False\<rparr>)]"
    by code_simp
  have o: "out (cpp_scan_file e10 init ''src/loop.c'') = []"
    by code_simp
  show ?thesis
    using h1 h7 h8 h9 h10 g o self_include [OF h1 h2 h3 h4 h5 h6 h7 h8 h9 h10] by simp
qed

text \<open>
  The self-include of \<^verbatim>\<open>/usr/include/self.c\<close> is dropped as a system header, and that of
  \<^verbatim>\<open>src/ind.c\<close> is not matched: either node has no child and no parent and is in both
  listings.
\<close>

theorem self_include_without_edge:
  "resolve_path e10 (fst (split ''/usr/include/self.c'')) ''self.c'' True = ''/usr/include/self.c''
   \<and> graph (cpp_scan_file e10 init ''/usr/include/self.c'')
     = [(''/usr/include/self.c'', \<lparr>file' = ''/usr/include/self.c'', children = [],
                                   has_parent = False, visited = True, missing = False\<rparr>)]
   \<and> out (print_top_level_nodes (cpp_scan_file e10 init ''/usr/include/self.c''))
     = [''/usr/include/self.c'']
   \<and> out (print_leaf_nodes (cpp_scan_file e10 init ''/usr/include/self.c''))
     = [''/usr/include/self.c'']
   \<and> resolve_path e10 (fst (split ''src/ind.c'')) ''ind.c'' True = ''src/ind.c''
   \<and> graph (cpp_scan_file e10 init ''src/ind.c'')
     = [(''src/ind.c'', \<lparr>file' = ''src/ind.c'', children = [], has_parent = False,
                         visited = True, missing = False\<rparr>)]
   \<and> out (print_top_level_nodes (cpp_scan_file e10 init ''src/ind.c'')) = [''src/ind.c'']
   \<and> out (print_leaf_nodes (cpp_scan_file e10 init ''src/ind.c'')) = [''src/ind.c'']"
  by code_simp

subsection \<open>A directive with mismatched delimiters\<close>
























end
